theory Spec2Isabelle
  imports
    Complex_Main
    "HOL-Library.Char_ord"
    "HOL-Library.List_Lexorder"
    "HOL-Library.Product_Lexorder"
    "HOL-Library.Sublist"
begin

section \<open>Hydra: the coordination layer of \<^verbatim>\<open>hydra.py\<close>\<close>

text \<open>
  The development follows \<^verbatim>\<open>src/hydra.py\<close>. Python strings are \<^typ>\<open>string\<close>,
  Python's unbounded integers are \<^typ>\<open>int\<close>, an exception is the \<open>Inl\<close> branch of a
  sum, and everything the code asks of its surroundings (tmux, git, the file system, the
  clock) is an explicit argument holding the answers the code receives.
\<close>

subsection \<open>Errors and exit codes\<close>

text \<open>
  \<^verbatim>\<open>HydraError\<close> (alias \<^verbatim>\<open>MctlError\<close>) is the only exception the code raises itself.
  Its message is kept as data: the kind of failure and the values the message prints.
  A list of conflicts is printed cut to its first entries (\<^verbatim>\<open>conflicts[:20]\<close>,
  \<^verbatim>\<open>conflicts[:50]\<close>) followed by \<^verbatim>\<open>... and N more\<close>; the constructors keep the
  printed entries and \<open>N\<close> (\<open>0\<close> when the line is absent). The last constructor
  is any exception that is no \<^verbatim>\<open>HydraError\<close>, with the name of its class: an
  \<^verbatim>\<open>OperationalError\<close> of sqlite3, a \<^verbatim>\<open>JSONDecodeError\<close>, a \<^verbatim>\<open>ValueError\<close>.
\<close>

type_synonym conflict = "string \<times> string \<times> string"

datatype error =
    EmptyAllowPattern
  | AllowPatternNotRelative string
  | AllowPatternEscapesRoot string
  | TaskLoadFailed
  | PreCommitNotAllowed "string list" nat
  | LocksDbNotFound
  | PreCommitLockConflict "conflict list" nat
  | LockConflict string string "conflict list" nat
  | BranchNotFound
  | NotAnAncestor
  | WorktreeDirty
  | CommandFailed
  | RevertConflict
  | MergeFailedNotConflict
  | DebounceTimeout
  | Uncaught string

text \<open>
  \<^verbatim>\<open>main\<close>: the command's return value is the exit status and a \<^verbatim>\<open>HydraError\<close>
  exits 2. \<^verbatim>\<open>main\<close> catches no other exception of the commands: Python prints the
  traceback and exits 1.
\<close>

definition main_exit :: "error + int \<Rightarrow> int" where
  "main_exit r =
     (case r of
        Inl (Uncaught _) \<Rightarrow> 1
      | Inl _ \<Rightarrow> 2
      | Inr n \<Rightarrow> n)"

subsection \<open>The lock table\<close>

text \<open>
  A row of the \<^verbatim>\<open>locks\<close> table of \<^verbatim>\<open>_connect_db\<close>. The table is the list of its rows;
  \<^verbatim>\<open>file\<close> is the primary key, so an \<^verbatim>\<open>INSERT\<close> of a file already present fails with
  \<^verbatim>\<open>IntegrityError\<close>. \<^verbatim>\<open>tmux_session\<close> is the only column that may be \<^verbatim>\<open>NULL\<close>.
\<close>

record lock =
  lock_file :: string
  lock_agent :: string
  lock_task :: string
  locked_at :: int
  tmux_session :: "string option"

type_synonym locks = "lock list"

definition primary_key :: "locks \<Rightarrow> bool" where
  "primary_key T = distinct (map lock_file T)"

text \<open>\<^verbatim>\<open>SELECT agent, task FROM locks WHERE file=?\<close> with \<^verbatim>\<open>fetchone()\<close>.\<close>

definition select_by_file :: "locks \<Rightarrow> string \<Rightarrow> lock option" where
  "select_by_file T f = find (\<lambda>r. lock_file r = f) T"

text \<open>\<^verbatim>\<open>INSERT INTO locks(...) VALUES(...)\<close>; \<open>None\<close> is \<^verbatim>\<open>sqlite3.IntegrityError\<close>.\<close>

definition insert_lock :: "lock \<Rightarrow> locks \<Rightarrow> locks option" where
  "insert_lock r T = (if lock_file r \<in> set (map lock_file T) then None else Some (T @ [r]))"

text \<open>\<^verbatim>\<open>UPDATE locks SET agent=?, task=?, locked_at=?, tmux_session=? WHERE file=?\<close>.\<close>

definition update_lock :: "lock \<Rightarrow> locks \<Rightarrow> locks" where
  "update_lock r T = map (\<lambda>x. if lock_file x = lock_file r then r else x) T"

text \<open>\<^verbatim>\<open>DELETE FROM locks WHERE tmux_session=?\<close>, with its \<^verbatim>\<open>rowcount\<close>.\<close>

definition delete_by_session :: "string \<Rightarrow> locks \<Rightarrow> nat \<times> locks" where
  "delete_by_session s T =
     (length (filter (\<lambda>r. tmux_session r = Some s) T),
      filter (\<lambda>r. tmux_session r \<noteq> Some s) T)"

text \<open>\<^verbatim>\<open>DELETE FROM locks WHERE agent=? AND task=?\<close> of \<^verbatim>\<open>_release_locks\<close>.\<close>

definition release_locks :: "string \<Rightarrow> string \<Rightarrow> locks \<Rightarrow> nat \<times> locks" where
  "release_locks ag tk T =
     (length (filter (\<lambda>r. lock_agent r = ag \<and> lock_task r = tk) T),
      filter (\<lambda>r. \<not> (lock_agent r = ag \<and> lock_task r = tk)) T)"

subsection \<open>The liveness oracle\<close>

text \<open>
  What tmux answers during one call: whether \<^verbatim>\<open>shutil.which("tmux")\<close> finds it, and the
  outcome of \<^verbatim>\<open>tmux has-session -t s\<close> (the exit status, or the \<^verbatim>\<open>FileNotFoundError\<close>
  of \<^verbatim>\<open>subprocess.run\<close>).
\<close>

datatype proc = FileNotFoundError | Exited int

record tmux_env =
  which_tmux :: bool
  has_session :: "string \<Rightarrow> proc"

definition tmux_available :: "tmux_env \<Rightarrow> bool" where
  "tmux_available e = which_tmux e"

definition tmux_session_exists :: "tmux_env \<Rightarrow> string \<Rightarrow> bool" where
  "tmux_session_exists e session =
     (if \<not> tmux_available e then False
      else (case has_session e session of
              FileNotFoundError \<Rightarrow> False
            | Exited returncode \<Rightarrow> returncode = 0))"

subsection \<open>Garbage collection of dead locks\<close>

text \<open>
  \<^verbatim>\<open>SELECT DISTINCT tmux_session FROM locks WHERE tmux_session IS NOT NULL AND
  tmux_session != ''\<close>.
\<close>

definition select_distinct_sessions :: "locks \<Rightarrow> string list" where
  "select_distinct_sessions T =
     remdups (concat (map
       (\<lambda>r. case tmux_session r of None \<Rightarrow> []
             | Some s \<Rightarrow> if s \<noteq> [] then [s] else []) T))"

text \<open>The \<^verbatim>\<open>for (session,) in rows\<close> loop of \<^verbatim>\<open>_cleanup_dead_locks\<close>.\<close>

fun cleanup_loop :: "tmux_env \<Rightarrow> string list \<Rightarrow> nat \<times> locks \<Rightarrow> nat \<times> locks" where
  "cleanup_loop e [] (released, T) = (released, T)"
| "cleanup_loop e (session # rows) (released, T) =
     (if session = [] then cleanup_loop e rows (released, T)
      else if tmux_session_exists e session then cleanup_loop e rows (released, T)
      else (case delete_by_session session T of
              (rowcount, T') \<Rightarrow> cleanup_loop e rows (released + rowcount, T')))"

definition cleanup_dead_locks :: "tmux_env \<Rightarrow> locks \<Rightarrow> nat \<times> locks" where
  "cleanup_dead_locks e T =
     (if \<not> tmux_available e then (0, T)
      else cleanup_loop e (select_distinct_sessions T) (0, T))"

text \<open>A row the collector leaves alone: no session tag, an empty one, or a live session.\<close>

definition kept_by_gc :: "tmux_env \<Rightarrow> lock \<Rightarrow> bool" where
  "kept_by_gc e r =
     (case tmux_session r of None \<Rightarrow> True
      | Some s \<Rightarrow> s = [] \<or> tmux_session_exists e s)"

text \<open>Successive runs of the collector, each with the tmux of its moment.\<close>

definition gc_runs :: "tmux_env list \<Rightarrow> locks \<Rightarrow> locks" where
  "gc_runs es T = fold (\<lambda>e T. snd (cleanup_dead_locks e T)) es T"

subsection \<open>Lock acquisition\<close>

text \<open>
  \<^verbatim>\<open>SELECT file, agent, task FROM locks WHERE file IN (...)\<close>, with one parameter
  for each file. SQLite answers the query through the index of the primary key, so the
  rows come ordered by file, whatever the order of their insertion. A statement with
  more parameters than SQLite allows (\<^verbatim>\<open>SQLITE_MAX_VARIABLE_NUMBER\<close>, 32766 in the
  current builds; here the argument \<open>max_variables\<close>) raises
  \<^verbatim>\<open>sqlite3.OperationalError\<close>: the answer \<open>None\<close>.
\<close>

definition select_in :: "nat \<Rightarrow> locks \<Rightarrow> string list \<Rightarrow> conflict list option" where
  "select_in max_variables T unique =
     (if max_variables < length unique then None
      else Some (sort_key fst
             (map (\<lambda>r. (lock_file r, lock_agent r, lock_task r))
                (filter (\<lambda>r. lock_file r \<in> set unique) T))))"

text \<open>
  The \<^verbatim>\<open>for f in unique\<close> loop of \<^verbatim>\<open>_acquire_locks\<close>: \<^verbatim>\<open>INSERT\<close>, and on
  \<^verbatim>\<open>IntegrityError\<close> the \<^verbatim>\<open>UPDATE\<close> of the row of that file.
\<close>

fun upsert_loop ::
  "string list \<Rightarrow> string \<Rightarrow> string \<Rightarrow> int \<Rightarrow> string option \<Rightarrow> locks \<Rightarrow> locks" where
  "upsert_loop [] agent task now session T = T"
| "upsert_loop (f # unique) agent task now session T =
     (let r = \<lparr>lock_file = f, lock_agent = agent, lock_task = task,
               locked_at = now, tmux_session = session\<rparr>
      in upsert_loop unique agent task now session
           (case insert_lock r T of Some T' \<Rightarrow> T' | None \<Rightarrow> update_lock r T))"

text \<open>
  \<^verbatim>\<open>_acquire_locks\<close>, one \<^verbatim>\<open>BEGIN IMMEDIATE\<close> transaction: the result and the table
  afterwards. An exception rolls the transaction back, so the table is the one before the
  call, the collector's deletions undone too; this holds for the conflict error and for
  the \<^verbatim>\<open>OperationalError\<close> of the query alike.
\<close>

definition acquire_locks ::
  "tmux_env \<Rightarrow> nat \<Rightarrow> int \<Rightarrow> string list \<Rightarrow> string \<Rightarrow> string \<Rightarrow> string option \<Rightarrow> locks
     \<Rightarrow> (error + unit) \<times> locks" where
  "acquire_locks e max_variables now files agent task session T =
     (let unique = sort (remdups files);
          T1 = snd (cleanup_dead_locks e T)
      in if unique \<noteq> [] then
           (case select_in max_variables T1 unique of
              None \<Rightarrow> (Inl (Uncaught ''OperationalError''), T)
            | Some rows \<Rightarrow>
               (let conflicts = filter (\<lambda>(f, a, t). a \<noteq> agent \<or> t \<noteq> task) rows
                in if conflicts \<noteq> [] then
                     (Inl (LockConflict agent task (take 20 conflicts) (length conflicts - 20)), T)
                   else (Inr (), upsert_loop unique agent task now session T1)))
         else (Inr (), T1))"

subsection \<open>Strings\<close>

text \<open>
  Characters are code points below 256. \<^verbatim>\<open>str.strip()\<close> removes the white space of
  \<^verbatim>\<open>str.isspace\<close> from both ends.
\<close>

definition isspace :: "char \<Rightarrow> bool" where
  "isspace c = (c \<in> set [CHR 0x09, CHR 0x0A, CHR 0x0B, CHR 0x0C, CHR 0x0D,
                          CHR 0x1C, CHR 0x1D, CHR 0x1E, CHR 0x1F, CHR 0x20,
                          CHR 0x85, CHR 0xA0])"

definition lstrip :: "string \<Rightarrow> string" where
  "lstrip s = dropWhile isspace s"

definition rstrip :: "string \<Rightarrow> string" where
  "rstrip s = rev (dropWhile isspace (rev s))"

definition strip :: "string \<Rightarrow> string" where
  "strip s = rstrip (lstrip s)"

text \<open>\<^verbatim>\<open>s.lstrip(chars)\<close>: drops leading characters that occur in \<open>chars\<close>.\<close>

definition lstrip_chars :: "string \<Rightarrow> string \<Rightarrow> string" where
  "lstrip_chars chars s = dropWhile (\<lambda>c. c \<in> set chars) s"

text \<open>\<^verbatim>\<open>s.split(sep)\<close> for a separator of one character.\<close>

fun split_on :: "char \<Rightarrow> string \<Rightarrow> string list" where
  "split_on sep [] = [[]]"
| "split_on sep (c # s) =
     (if c = sep then [] # split_on sep s
      else (case split_on sep s of
              w # ws \<Rightarrow> (c # w) # ws
            | [] \<Rightarrow> [[c]]))"

text \<open>\<^verbatim>\<open>"/".join(parts)\<close>.\<close>

fun join_slash :: "string list \<Rightarrow> string" where
  "join_slash [] = []"
| "join_slash [x] = x"
| "join_slash (x # y # ys) = x @ CHR ''/'' # join_slash (y # ys)"

text \<open>\<^verbatim>\<open>s.split()\<close>: the maximal runs of characters that are not white space.\<close>

fun split_ws :: "string \<Rightarrow> string list" where
  "split_ws [] = []"
| "split_ws (c # s) =
     (if isspace c then split_ws s
      else (case s of
              [] \<Rightarrow> [[c]]
            | d # _ \<Rightarrow> if isspace d then [c] # split_ws s
                       else (case split_ws s of
                               w # ws \<Rightarrow> (c # w) # ws
                             | [] \<Rightarrow> [[c]])))"

subsection \<open>Allow patterns\<close>

text \<open>\<^verbatim>\<open>_is_glob_pattern\<close>.\<close>

definition is_glob_pattern :: "string \<Rightarrow> bool" where
  "is_glob_pattern pattern =
     (if sublist ''**'' pattern then True
      else (\<exists>ch \<in> set ''*?[]''. ch \<in> set pattern))"

text \<open>\<^verbatim>\<open>os.path.isabs\<close> of \<^verbatim>\<open>posixpath\<close>: the path starts with a slash.\<close>

definition isabs :: "string \<Rightarrow> bool" where
  "isabs s = prefix ''/'' s"

text \<open>\<^verbatim>\<open>pattern.replace("\\", "/")\<close>.\<close>

definition replace_backslash :: "string \<Rightarrow> string" where
  "replace_backslash s = map (\<lambda>c. if c = CHR 0x5C then CHR ''/'' else c) s"

text \<open>\<^verbatim>\<open>_validate_allow_pattern\<close>.\<close>

definition validate_allow_pattern :: "string \<Rightarrow> error + string" where
  "validate_allow_pattern pattern =
     (if pattern = [] then Inl EmptyAllowPattern
      else if isabs pattern then Inl (AllowPatternNotRelative pattern)
      else (let norm = replace_backslash pattern
            in if prefix ''../'' norm \<or> sublist ''/../'' norm \<or> norm = ''..''
               then Inl (AllowPatternEscapesRoot pattern)
               else Inr (lstrip_chars ''./'' norm)))"

text \<open>
  What the specification calls a \<^verbatim>\<open>..\<close> traversal segment: after the separators are
  normalised, one of the parts between slashes is \<^verbatim>\<open>..\<close>.
\<close>

definition has_dotdot_segment :: "string \<Rightarrow> bool" where
  "has_dotdot_segment pattern = (''..'' \<in> set (split_on CHR ''/'' (replace_backslash pattern)))"

text \<open>
  \<^verbatim>\<open>_path_is_allowed\<close>. \<^verbatim>\<open>fnmatch.fnmatch\<close> is the standard library's and is an
  argument here: \<open>fnmatch name pat\<close>.
\<close>

fun path_is_allowed :: "(string \<Rightarrow> string \<Rightarrow> bool) \<Rightarrow> string \<Rightarrow> string list \<Rightarrow> error + bool" where
  "path_is_allowed fnmatch path [] = Inr False"
| "path_is_allowed fnmatch path (raw # allow_patterns) =
     (case validate_allow_pattern raw of
        Inl err \<Rightarrow> Inl err
      | Inr pattern \<Rightarrow>
          if fnmatch (replace_backslash path) pattern then Inr True
          else path_is_allowed fnmatch path allow_patterns)"

text \<open>The list comprehension \<^verbatim>\<open>[_validate_allow_pattern(x) for x in allow]\<close>.\<close>

fun validate_all :: "string list \<Rightarrow> error + string list" where
  "validate_all [] = Inr []"
| "validate_all (x # allow) =
     (case validate_allow_pattern x of
        Inl err \<Rightarrow> Inl err
      | Inr pattern \<Rightarrow>
          (case validate_all allow of
             Inl err \<Rightarrow> Inl err
           | Inr patterns \<Rightarrow> Inr (pattern # patterns)))"

subsection \<open>Pattern expansion\<close>

text \<open>
  \<^verbatim>\<open>Path(pattern).as_posix()\<close> for a pattern that does not start with a slash: empty
  and \<^verbatim>\<open>.\<close> parts are dropped, \<^verbatim>\<open>..\<close> parts stay, and the empty path is \<^verbatim>\<open>.\<close>.
\<close>

definition as_posix :: "string \<Rightarrow> string" where
  "as_posix pattern =
     (let parts = filter (\<lambda>part. part \<noteq> [] \<and> part \<noteq> ''.'') (split_on CHR ''/'' pattern)
      in if parts = [] then ''.'' else join_slash parts)"

text \<open>
  The file system as \<^verbatim>\<open>_expand_allow\<close> sees it: the matches of
  \<^verbatim>\<open>glob.glob(str(root / pattern), recursive=True)\<close>, \<^verbatim>\<open>Path.resolve\<close> (\<open>None\<close> is
  \<^verbatim>\<open>FileNotFoundError\<close>), \<^verbatim>\<open>Path.is_file\<close>, and \<^verbatim>\<open>rp.relative_to(root).as_posix()\<close>
  (\<open>None\<close> is the \<^verbatim>\<open>ValueError\<close> of a path outside the root).
\<close>

record fs_env =
  glob_matches :: "string \<Rightarrow> string list"
  resolve :: "string \<Rightarrow> string option"
  is_file :: "string \<Rightarrow> bool"
  relative_to_root :: "string \<Rightarrow> string option"

text \<open>The \<^verbatim>\<open>for m in matches\<close> loop: the paths one glob pattern adds.\<close>

fun glob_files :: "fs_env \<Rightarrow> string list \<Rightarrow> string list" where
  "glob_files fs [] = []"
| "glob_files fs (m # matches) =
     (case resolve fs m of
        None \<Rightarrow> glob_files fs matches
      | Some rp \<Rightarrow>
          if \<not> is_file fs rp then glob_files fs matches
          else (case relative_to_root fs rp of
                  None \<Rightarrow> glob_files fs matches
                | Some rel \<Rightarrow> rel # glob_files fs matches))"

text \<open>The \<^verbatim>\<open>for raw in allow\<close> loop; the set \<^verbatim>\<open>locked\<close> is the list of what was added.\<close>

fun expand_loop :: "fs_env \<Rightarrow> string list \<Rightarrow> error + string list" where
  "expand_loop fs [] = Inr []"
| "expand_loop fs (raw # allow) =
     (case validate_allow_pattern raw of
        Inl err \<Rightarrow> Inl err
      | Inr pattern \<Rightarrow>
          (case expand_loop fs allow of
             Inl err \<Rightarrow> Inl err
           | Inr locked \<Rightarrow>
               if \<not> is_glob_pattern pattern then Inr (as_posix pattern # locked)
               else Inr (glob_files fs (glob_matches fs pattern) @ locked)))"

text \<open>\<^verbatim>\<open>_expand_allow\<close>: \<^verbatim>\<open>sorted(locked)\<close> of the set.\<close>

definition expand_allow :: "fs_env \<Rightarrow> string list \<Rightarrow> error + string list" where
  "expand_allow fs allow =
     (case expand_loop fs allow of
        Inl err \<Rightarrow> Inl err
      | Inr locked \<Rightarrow> Inr (sort (remdups locked)))"

subsection \<open>The pre-commit hook\<close>

text \<open>
  What \<^verbatim>\<open>_hook_pre_commit\<close> reads: three environment variables, the \<^verbatim>\<open>allow\<close> list
  of the task descriptor, the staged paths of \<^verbatim>\<open>_git_staged_paths\<close>, and whether the
  locks database exists. In place of the list stands the exception raised on the way to
  it: \<open>TaskLoadFailed\<close> for the \<^verbatim>\<open>HydraError\<close> of a root, a task id or a descriptor
  that is missing or invalid, \<open>Uncaught\<close> for the \<^verbatim>\<open>JSONDecodeError\<close> of a descriptor
  that is no JSON.
\<close>

record hook_env =
  env_skip_hooks :: string
  env_agent_id :: string
  env_task_id :: string
  task_allow :: "error + string list"
  staged_paths :: "string list"
  db_exists :: bool

text \<open>\<^verbatim>\<open>[p for p in staged if not _path_is_allowed(p, allow_patterns)]\<close>.\<close>

fun not_allowed_paths ::
  "(string \<Rightarrow> string \<Rightarrow> bool) \<Rightarrow> string list \<Rightarrow> string list \<Rightarrow> error + string list" where
  "not_allowed_paths fnmatch [] allow_patterns = Inr []"
| "not_allowed_paths fnmatch (p # staged) allow_patterns =
     (case path_is_allowed fnmatch p allow_patterns of
        Inl err \<Rightarrow> Inl err
      | Inr ok \<Rightarrow>
          (case not_allowed_paths fnmatch staged allow_patterns of
             Inl err \<Rightarrow> Inl err
           | Inr rest \<Rightarrow> Inr (if ok then rest else p # rest)))"

text \<open>
  The \<^verbatim>\<open>for rel in staged\<close> loop inside the transaction. The \<^verbatim>\<open>INSERT\<close> runs only
  when no row has the file, so it cannot fail on the primary key.
\<close>

fun pre_commit_loop ::
  "string \<Rightarrow> string \<Rightarrow> int \<Rightarrow> string list \<Rightarrow> conflict list \<times> locks \<Rightarrow> conflict list \<times> locks" where
  "pre_commit_loop agent task_id now [] (conflicts, T) = (conflicts, T)"
| "pre_commit_loop agent task_id now (rel # staged) (conflicts, T) =
     (case select_by_file T rel of
        None \<Rightarrow>
          pre_commit_loop agent task_id now staged
            (conflicts,
             T @ [\<lparr>lock_file = rel, lock_agent = agent, lock_task = task_id,
                    locked_at = now, tmux_session = Some []\<rparr>])
      | Some row \<Rightarrow>
          if lock_agent row \<noteq> agent \<or> lock_task row \<noteq> task_id
          then pre_commit_loop agent task_id now staged
                 (conflicts @ [(rel, lock_agent row, lock_task row)], T)
          else pre_commit_loop agent task_id now staged (conflicts, T))"

text \<open>\<^verbatim>\<open>_hook_pre_commit\<close>: the exit status or the error, and the lock table afterwards.\<close>

definition hook_pre_commit ::
  "(string \<Rightarrow> string \<Rightarrow> bool) \<Rightarrow> hook_env \<Rightarrow> int \<Rightarrow> locks \<Rightarrow> (error + int) \<times> locks" where
  "hook_pre_commit fnmatch env now T =
     (if strip (env_skip_hooks env) \<noteq> [] then (Inr 0, T)
      else
        (let agent = strip (env_agent_id env); task_id = strip (env_task_id env)
         in if agent = [] \<or> task_id = [] then (Inr 0, T)
            else
              (case task_allow env of
                 Inl err \<Rightarrow> (Inl err, T)
               | Inr allow \<Rightarrow>
                   (case validate_all allow of
                      Inl err \<Rightarrow> (Inl err, T)
                    | Inr allow_patterns \<Rightarrow>
                        (let staged = staged_paths env
                         in if staged = [] then (Inr 0, T)
                            else
                              (case not_allowed_paths fnmatch staged allow_patterns of
                                 Inl err \<Rightarrow> (Inl err, T)
                               | Inr not_allowed \<Rightarrow>
                                   if not_allowed \<noteq> [] then
                                     (Inl (PreCommitNotAllowed (take 50 not_allowed)
                                             (length not_allowed - 50)), T)
                                   else if \<not> db_exists env then (Inl LocksDbNotFound, T)
                                   else
                                     (case pre_commit_loop agent task_id now staged ([], T) of
                                        (conflicts, T') \<Rightarrow>
                                          if conflicts \<noteq> [] then
                                            (Inl (PreCommitLockConflict (take 50 conflicts)
                                                    (length conflicts - 50)), T)
                                          else (Inr 0, T'))))))))"

subsection \<open>The journal\<close>

record journal_entry =
  entry_ts :: int
  entry_sha :: string
  entry_agent :: string
  entry_task :: string
  entry_files :: string
  entry_index :: nat

text \<open>
  The standard library on parsed JSON values of some type \<open>'j\<close>: \<^verbatim>\<open>json.loads\<close>
  (\<open>None\<close> is \<^verbatim>\<open>JSONDecodeError\<close>), \<^verbatim>\<open>isinstance(obj, dict)\<close>, \<^verbatim>\<open>obj.get(key)\<close>
  (\<open>None\<close> for a missing key), truth of a value, \<^verbatim>\<open>int(v)\<close> (\<open>None\<close> when it raises)
  and \<^verbatim>\<open>str(v)\<close>.
\<close>

record 'j json_lib =
  json_loads :: "string \<Rightarrow> 'j option"
  is_dict :: "'j \<Rightarrow> bool"
  dict_get :: "'j \<Rightarrow> string \<Rightarrow> 'j option"
  truthy :: "'j \<Rightarrow> bool"
  py_int :: "'j \<Rightarrow> int option"
  py_str :: "'j \<Rightarrow> string"

text \<open>\<^verbatim>\<open>int(obj.get(key) or 0)\<close> and \<^verbatim>\<open>str(obj.get(key) or "")\<close>.\<close>

definition get_int :: "'j json_lib \<Rightarrow> 'j \<Rightarrow> string \<Rightarrow> int option" where
  "get_int lib obj key =
     (case dict_get lib obj key of
        None \<Rightarrow> Some 0
      | Some v \<Rightarrow> if truthy lib v then py_int lib v else Some 0)"

definition get_str :: "'j json_lib \<Rightarrow> 'j \<Rightarrow> string \<Rightarrow> string" where
  "get_str lib obj key =
     (case dict_get lib obj key of
        None \<Rightarrow> []
      | Some v \<Rightarrow> if truthy lib v then py_str lib v else [])"

text \<open>
  The \<^verbatim>\<open>for idx, raw in enumerate(f)\<close> loop of \<^verbatim>\<open>_read_journal_entries\<close>, from line
  number \<open>idx\<close> on: the entries in file order and the count of invalid lines.
\<close>

fun read_loop :: "'j json_lib \<Rightarrow> nat \<Rightarrow> string list \<Rightarrow> journal_entry list \<times> nat" where
  "read_loop lib idx [] = ([], 0)"
| "read_loop lib idx (raw # rest) =
     (case read_loop lib (Suc idx) rest of
        (entries, invalid) \<Rightarrow>
          (let line = strip raw
           in if line = [] then (entries, invalid)
              else
                (case json_loads lib line of
                   None \<Rightarrow> (entries, Suc invalid)
                 | Some obj \<Rightarrow>
                     if \<not> is_dict lib obj then (entries, Suc invalid)
                     else
                       (case get_int lib obj ''ts'' of
                          None \<Rightarrow> (entries, Suc invalid)
                        | Some ts \<Rightarrow>
                            (\<lparr>entry_ts = ts, entry_sha = get_str lib obj ''sha'',
                               entry_agent = get_str lib obj ''agent'',
                               entry_task = get_str lib obj ''task'',
                               entry_files = get_str lib obj ''files'',
                               entry_index = idx\<rparr> # entries, invalid)))))"

text \<open>\<^verbatim>\<open>_read_journal_entries\<close>; the file is its lines, or \<open>None\<close> when it does not exist.\<close>

definition read_journal_entries ::
  "'j json_lib \<Rightarrow> string list option \<Rightarrow> journal_entry list \<times> nat" where
  "read_journal_entries lib file_lines =
     (case file_lines of None \<Rightarrow> ([], 0) | Some lines \<Rightarrow> read_loop lib 0 lines)"

text \<open>The filter loop of \<^verbatim>\<open>cmd_changes\<close>: whether an entry is kept.\<close>

definition changes_keep ::
  "int option \<Rightarrow> string option \<Rightarrow> string option \<Rightarrow> journal_entry \<Rightarrow> bool" where
  "changes_keep since_ts agent_filter task_filter e =
     (\<not> (since_ts \<noteq> None \<and> entry_ts e < the since_ts) \<and>
      \<not> (agent_filter \<noteq> None \<and> entry_agent e \<noteq> the agent_filter) \<and>
      \<not> (task_filter \<noteq> None \<and> entry_task e \<noteq> the task_filter))"

text \<open>
  \<^verbatim>\<open>cmd_changes\<close> after its arguments are parsed: the entries in the order they are
  printed, \<^verbatim>\<open>filtered.sort(key=lambda x: (int(x.ts), int(x.index)))\<close>.
\<close>

definition cmd_changes ::
  "'j json_lib \<Rightarrow> string list option \<Rightarrow> int option \<Rightarrow> string option \<Rightarrow> string option
     \<Rightarrow> journal_entry list" where
  "cmd_changes lib file_lines since_ts agent_filter task_filter =
     (let entries = fst (read_journal_entries lib file_lines);
          filtered = filter (changes_keep since_ts agent_filter task_filter) entries
      in sort_key (\<lambda>x. (entry_ts x, entry_index x)) filtered)"

subsection \<open>The snapshot debounce wait\<close>























subsection \<open>Git commands and their effects\<close>

text \<open>
  The commands that change the repository, the lock table or tmux, in the order a
  command issues them. What git answers is an argument of each command.
\<close>

datatype effect =
    GitWorktreeAdd
  | GitWorktreeRemove
  | GitRevertNoCommit
  | GitRevertAbort
  | GitResetHard
  | GitCommit
  | GitMergeSquash
  | GitMergeNoFF
  | GitMergeAbort
  | TmuxKillSession
  | ReleaseLocks
  | GitAgentWorktreeRemove
  | GitBranchDelete

text \<open>\<^verbatim>\<open>_ensure_worktree_clean\<close> without \<^verbatim>\<open>allow_untracked\<close>: a line that is not blank.\<close>

definition worktree_dirty :: "string list \<Rightarrow> bool" where
  "worktree_dirty status_lines = (filter (\<lambda>line. strip line \<noteq> []) status_lines \<noteq> [])"

text \<open>\<^verbatim>\<open>_abort_revert\<close> and \<^verbatim>\<open>_abort_merge\<close>, by the exit status of the abort.\<close>

definition abort_revert :: "int \<Rightarrow> effect list" where
  "abort_revert returncode = (if returncode = 0 then [GitRevertAbort] else [GitRevertAbort, GitResetHard])"

definition abort_merge :: "int \<Rightarrow> effect list" where
  "abort_merge returncode = (if returncode = 0 then [GitMergeAbort] else [GitMergeAbort, GitResetHard])"

subsection \<open>Rollback\<close>

text \<open>
  \<^verbatim>\<open>cmd_rollback\<close> runs its commands in two places, and a commit goes to what is checked
  out where \<^verbatim>\<open>git commit\<close> runs: \<open>InRoot\<close> is a command run in the project root
  (\<^verbatim>\<open>cwd=root\<close>), \<open>OnHead head\<close> a command run in the work tree the rollback uses
  (\<^verbatim>\<open>cwd=agent_worktree\<close>), where \<open>head\<close> is the branch checked out there.
\<close>

datatype placed = InRoot effect | OnHead string effect

fun effect_of :: "placed \<Rightarrow> effect" where
  "effect_of (InRoot e) = e"
| "effect_of (OnHead head e) = e"

text \<open>
  What \<^verbatim>\<open>cmd_rollback\<close> is answered.
  \<^item> \<open>rb_resolved\<close>: the agent name and the task id that \<^verbatim>\<open>_sanitize_ref_component\<close>,
    \<^verbatim>\<open>_resolve_agent_task\<close> and \<^verbatim>\<open>_load_task\<close> arrive at, or the exception one of them
    raises (\<^verbatim>\<open>HydraError\<close>, or another one such as the \<^verbatim>\<open>JSONDecodeError\<close> of a
    descriptor that does not parse).
  \<^item> \<open>rb_branch_exists\<close>: \<^verbatim>\<open>git show-ref --verify\<close> of the agent branch.
  \<^item> \<open>rb_to_commit\<close>: the commit \<^verbatim>\<open>--to\<close> resolves to; \<open>None\<close> when
    \<^verbatim>\<open>git rev-parse --verify\<close> fails or prints nothing.
  \<^item> \<open>rb_is_ancestor\<close>: the exit status of \<^verbatim>\<open>git merge-base --is-ancestor\<close>.
  \<^item> \<open>rb_registered\<close>: whether \<^verbatim>\<open>git worktree list --porcelain\<close> lists a work tree
    with the agent branch checked out (\<^verbatim>\<open>_find_worktree_by_branch\<close>); \<open>None\<close> when the
    command fails.
  \<^item> \<open>rb_candidate\<close>: whether the directory \<^verbatim>\<open>.agents/<agent>/<task>\<close> exists, and
    then what is checked out for a git command run from there. The code does not look at
    it: it only tests that the directory exists.
  \<^item> \<open>rb_worktree_add\<close>: the exit status of \<^verbatim>\<open>git worktree add\<close> of the agent branch.
  \<^item> \<open>rb_status\<close>, \<open>rb_count\<close>: the lines of \<^verbatim>\<open>git status --porcelain\<close> and the
    number \<^verbatim>\<open>git rev-list --count to..HEAD\<close> prints, in the work tree; \<open>None\<close> is a
    command that failed.
  \<^item> \<open>rb_revert\<close>, \<open>rb_revert_abort\<close>, \<open>rb_commit\<close>: the exit statuses of
    \<^verbatim>\<open>git revert --no-commit\<close>, \<^verbatim>\<open>git revert --abort\<close> and \<^verbatim>\<open>git commit\<close>.
  \<^item> \<open>rb_new_sha\<close>: what \<^verbatim>\<open>git rev-parse HEAD\<close> prints afterwards.
\<close>

record rollback_env =
  rb_resolved :: "error + string \<times> string"
  rb_branch_exists :: bool
  rb_to_commit :: "string option"
  rb_is_ancestor :: int
  rb_registered :: "bool option"
  rb_candidate :: "string option"
  rb_worktree_add :: int
  rb_status :: "string list option"
  rb_count :: "int option"
  rb_revert :: int
  rb_revert_abort :: int
  rb_commit :: int
  rb_new_sha :: "string option"

text \<open>
  The \<^verbatim>\<open>try\<close> block of \<^verbatim>\<open>cmd_rollback\<close> in a work tree that has \<open>head\<close> checked
  out: result, commands, printed lines.
\<close>

definition rollback_body ::
  "rollback_env \<Rightarrow> string \<Rightarrow> (error + int) \<times> placed list \<times> string list" where
  "rollback_body env head =
     (case rb_status env of
        None \<Rightarrow> (Inl CommandFailed, [], [])
      | Some status_lines \<Rightarrow>
          if worktree_dirty status_lines then (Inl WorktreeDirty, [], [])
          else
            (case rb_count env of
               None \<Rightarrow> (Inl CommandFailed, [], [])
             | Some count \<Rightarrow>
                 if count \<le> 0 then (Inr 0, [], [''Nothing to rollback''])
                 else if rb_revert env \<noteq> 0 then
                   (Inl RevertConflict,
                    map (OnHead head) (GitRevertNoCommit # abort_revert (rb_revert_abort env)), [])
                 else if rb_commit env \<noteq> 0 then
                   (Inl CommandFailed, map (OnHead head) [GitRevertNoCommit, GitCommit], [])
                 else
                   (case rb_new_sha env of
                      None \<Rightarrow>
                        (Inl CommandFailed, map (OnHead head) [GitRevertNoCommit, GitCommit], [])
                    | Some new_sha \<Rightarrow>
                        (Inr 0, map (OnHead head) [GitRevertNoCommit, GitCommit], [new_sha]))))"

text \<open>
  \<^verbatim>\<open>cmd_rollback\<close>. The work tree is the one git lists for the agent branch; failing
  that the directory \<^verbatim>\<open>.agents/<agent>/<task>\<close> when it exists, with whatever is checked
  out there; failing that a work tree of the branch that the command adds, and that its
  \<^verbatim>\<open>finally\<close> removes.
\<close>

definition cmd_rollback :: "rollback_env \<Rightarrow> (error + int) \<times> placed list \<times> string list" where
  "cmd_rollback env =
     (case rb_resolved env of
        Inl err \<Rightarrow> (Inl err, [], [])
      | Inr (agent, task_id) \<Rightarrow>
          (let branch = ''agent/'' @ agent @ ''/'' @ task_id
           in if \<not> rb_branch_exists env then (Inl BranchNotFound, [], [])
              else
                (case rb_to_commit env of
                   None \<Rightarrow> (Inl CommandFailed, [], [])
                 | Some to_commit \<Rightarrow>
                     if rb_is_ancestor env \<noteq> 0 then (Inl NotAnAncestor, [], [])
                     else
                       (case rb_registered env of
                          None \<Rightarrow> (Inl CommandFailed, [], [])
                        | Some True \<Rightarrow> rollback_body env branch
                        | Some False \<Rightarrow>
                            (case rb_candidate env of
                               Some head \<Rightarrow> rollback_body env head
                             | None \<Rightarrow>
                                 if rb_worktree_add env \<noteq> 0 then
                                   (Inl CommandFailed, [InRoot GitWorktreeAdd], [])
                                 else
                                   (case rollback_body env branch of
                                      (r, effects, printed) \<Rightarrow>
                                        (r, InRoot GitWorktreeAdd # effects @ [InRoot GitWorktreeRemove],
                                         printed)))))))"

text \<open>
  The checks of \<^verbatim>\<open>cmd_rollback\<close> before it counts the commits have passed for the
  agent and the task: they are found and so is the branch, the target resolves and is an
  ancestor, the work tree is one that git lists for the branch or one that the command
  could add for it, and its status is clean.
\<close>

definition rollback_ready :: "rollback_env \<Rightarrow> string \<Rightarrow> string \<Rightarrow> bool" where
  "rollback_ready env agent task_id =
     (rb_resolved env = Inr (agent, task_id) \<and> rb_branch_exists env \<and>
      rb_to_commit env \<noteq> None \<and> rb_is_ancestor env = 0 \<and>
      (rb_registered env = Some True \<or>
       rb_registered env = Some False \<and> rb_candidate env = None \<and> rb_worktree_add env = 0) \<and>
      (case rb_status env of
         None \<Rightarrow> False
       | Some status_lines \<Rightarrow> \<not> worktree_dirty status_lines))"

text \<open>The commands of a rollback other than adding and removing its own work tree.\<close>

definition in_worktree :: "placed list \<Rightarrow> placed list" where
  "in_worktree effects =
     filter (\<lambda>p. p \<noteq> InRoot GitWorktreeAdd \<and> p \<noteq> InRoot GitWorktreeRemove) effects"

subsection \<open>Merge\<close>

text \<open>\<^verbatim>\<open>line.startswith(("UU ", "AA ", "DD "))\<close>.\<close>

definition conflict_line :: "string \<Rightarrow> bool" where
  "conflict_line line = (prefix ''UU '' line \<or> prefix ''AA '' line \<or> prefix ''DD '' line)"

definition has_conflicts :: "string list \<Rightarrow> bool" where
  "has_conflicts status_lines = (\<exists>line \<in> set status_lines. conflict_line line)"

text \<open>
  \<^verbatim>\<open>[line.split()[-1] for line in status.splitlines() if line.startswith(...)]\<close>. A
  line that passes the test has a first field, so \<^verbatim>\<open>[-1]\<close> does not raise.
\<close>

definition conflict_files :: "string list \<Rightarrow> string list" where
  "conflict_files status_lines = map (\<lambda>line. last (split_ws line)) (filter conflict_line status_lines)"

text \<open>
  The path of a status line as \<^verbatim>\<open>_git_status_porcelain\<close> reads it: what follows the two
  status letters and the blank, for a line that is no rename.
\<close>

definition status_path :: "string \<Rightarrow> string" where
  "status_path line = strip (drop 3 line)"

text \<open>
  What \<^verbatim>\<open>cmd_merge\<close> is answered once its checks before the merge have passed:
  \<^verbatim>\<open>args.squash\<close>; the exit status of \<^verbatim>\<open>git merge\<close>; the lines of
  \<^verbatim>\<open>git status --porcelain\<close> after a failed merge; the exit status of
  \<^verbatim>\<open>git merge --abort\<close>; whether the squash left staged changes, and the exit status of
  the commit; the head afterwards; whether the command had added the trunk work tree;
  whether the agent's tmux session is live, and the exit status of killing it; whether
  the agent work tree and the agent branch are there during the clean-up.
\<close>

record merge_env =
  mg_squash :: bool
  mg_merge :: int
  mg_status :: "string list option"
  mg_merge_abort :: int
  mg_staged :: bool
  mg_commit :: int
  mg_merged_sha :: "string option"
  mg_created_trunk_worktree :: bool
  mg_session_live :: bool
  mg_kill_session :: int
  mg_agent_worktree :: bool
  mg_branch_exists :: bool

record merge_outcome =
  mo_result :: "error + int"
  mo_effects :: "effect list"
  mo_conflict_files :: "string list"
  mo_locks :: locks

text \<open>The \<^verbatim>\<open>finally\<close> of \<^verbatim>\<open>cmd_merge\<close>.\<close>

definition merge_finally :: "merge_env \<Rightarrow> effect list" where
  "merge_finally env = (if mg_created_trunk_worktree env then [GitWorktreeRemove] else [])"

text \<open>What follows the \<^verbatim>\<open>try\<close> block when the merge went through.\<close>

definition merge_cleanup :: "merge_env \<Rightarrow> string \<Rightarrow> string \<Rightarrow> effect list \<Rightarrow> locks \<Rightarrow> merge_outcome" where
  "merge_cleanup env agent task_id done T =
     (if mg_session_live env \<and> mg_kill_session env \<noteq> 0 then
        \<lparr>mo_result = Inl CommandFailed, mo_effects = done @ [TmuxKillSession],
         mo_conflict_files = [], mo_locks = T\<rparr>
      else
        \<lparr>mo_result = Inr 0,
         mo_effects = done @ (if mg_session_live env then [TmuxKillSession] else [])
           @ [ReleaseLocks]
           @ (if mg_agent_worktree env then [GitAgentWorktreeRemove] else [])
           @ (if mg_branch_exists env then [GitBranchDelete] else []),
         mo_conflict_files = [],
         mo_locks = snd (release_locks agent task_id T)\<rparr>)"

text \<open>
  \<^verbatim>\<open>cmd_merge\<close> from the \<^verbatim>\<open>git merge\<close> command on. Both branches of
  \<^verbatim>\<open>if args.squash\<close> treat a failed merge alike.
\<close>

definition cmd_merge :: "merge_env \<Rightarrow> string \<Rightarrow> string \<Rightarrow> locks \<Rightarrow> merge_outcome" where
  "cmd_merge env agent task_id T =
     (let merge_cmd = (if mg_squash env then GitMergeSquash else GitMergeNoFF)
      in if mg_merge env \<noteq> 0 then
           (case mg_status env of
              None \<Rightarrow>
                \<lparr>mo_result = Inl CommandFailed, mo_effects = merge_cmd # merge_finally env,
                 mo_conflict_files = [], mo_locks = T\<rparr>
            | Some status_lines \<Rightarrow>
                if has_conflicts status_lines then
                  \<lparr>mo_result = Inr 1, mo_effects = merge_cmd # merge_finally env,
                   mo_conflict_files = conflict_files status_lines, mo_locks = T\<rparr>
                else
                  \<lparr>mo_result = Inl MergeFailedNotConflict,
                   mo_effects = merge_cmd # abort_merge (mg_merge_abort env) @ merge_finally env,
                   mo_conflict_files = [], mo_locks = T\<rparr>)
         else if mg_squash env \<and> mg_staged env \<and> mg_commit env \<noteq> 0 then
           \<lparr>mo_result = Inl CommandFailed,
            mo_effects = [merge_cmd, GitCommit] @ merge_finally env,
            mo_conflict_files = [], mo_locks = T\<rparr>
         else
           (case mg_merged_sha env of
              None \<Rightarrow>
                \<lparr>mo_result = Inl CommandFailed,
                 mo_effects = merge_cmd # (if mg_squash env \<and> mg_staged env then [GitCommit] else [])
                   @ merge_finally env,
                 mo_conflict_files = [], mo_locks = T\<rparr>
            | Some merged_sha \<Rightarrow>
                merge_cleanup env agent task_id
                  (merge_cmd # (if mg_squash env \<and> mg_staged env then [GitCommit] else [])
                     @ merge_finally env) T))"

subsection \<open>Example data\<close>

text \<open>A tmux that runs the session \<^verbatim>\<open>hydra\<close> only, and a machine without tmux.\<close>

definition tmux_hydra_only :: tmux_env where
  "tmux_hydra_only =
     \<lparr>which_tmux = True,
      has_session = (\<lambda>s. if s = ''hydra'' then Exited 0 else Exited 1)\<rparr>"

definition tmux_missing :: tmux_env where
  "tmux_missing = \<lparr>which_tmux = False, has_session = (\<lambda>s. FileNotFoundError)\<rparr>"

definition lock_row :: "string \<Rightarrow> string \<Rightarrow> string \<Rightarrow> int \<Rightarrow> string option \<Rightarrow> lock" where
  "lock_row f a t ts s =
     \<lparr>lock_file = f, lock_agent = a, lock_task = t, locked_at = ts, tmux_session = s\<rparr>"

text \<open>
  Four locks: one of a live session, one of a session that is gone, one taken before any
  session was recorded, one written by the pre-commit hook.
\<close>

definition example_locks :: locks where
  "example_locks =
     [lock_row ''src/a.py'' ''alice'' ''t1'' 10 (Some ''hydra''),
      lock_row ''src/b.py'' ''bob'' ''t2'' 11 (Some ''gone''),
      lock_row ''src/c.py'' ''carol'' ''t3'' 12 None,
      lock_row ''src/d.py'' ''dave'' ''t4'' 13 (Some [])]"



text \<open>A hook run of alice on task t1 with two staged paths, one of them not locked yet.\<close>

definition example_hook_env :: hook_env where
  "example_hook_env =
     \<lparr>env_skip_hooks = [], env_agent_id = ''alice'', env_task_id = ''t1'',
      task_allow = Inr [''src/a.py'', ''src/new.py''],
      staged_paths = [''src/a.py'', ''src/new.py''], db_exists = True\<rparr>"

text \<open>
  A journal of five lines (the third blank, the last not JSON) and a JSON library that
  knows its three valid lines.
\<close>

datatype json = JNull | JInt int | JStr string | JObj "(string \<times> json) list"

definition example_journal :: "string list" where
  \<open>example_journal =
     [''{"ts": 5, "sha": "c1", "agent": "alice", "task": "t1"}'',
      ''{"ts": 3, "sha": "c2", "agent": "bob", "task": "t2"}'',
      [],
      ''{"ts": 5, "sha": "c3", "agent": "bob", "task": "t2"}'',
      ''not json'']\<close>

definition example_json :: "json json_lib" where
  "example_json =
     \<lparr>json_loads = map_of
        [(example_journal ! 0,
          JObj [(''ts'', JInt 5), (''sha'', JStr ''c1''), (''agent'', JStr ''alice''), (''task'', JStr ''t1'')]),
         (example_journal ! 1,
          JObj [(''ts'', JInt 3), (''sha'', JStr ''c2''), (''agent'', JStr ''bob''), (''task'', JStr ''t2'')]),
         (example_journal ! 3,
          JObj [(''ts'', JInt 5), (''sha'', JStr ''c3''), (''agent'', JStr ''bob''), (''task'', JStr ''t2'')])],
      is_dict = (\<lambda>v. case v of JObj _ \<Rightarrow> True | _ \<Rightarrow> False),
      dict_get = (\<lambda>v key. case v of JObj kvs \<Rightarrow> map_of kvs key | _ \<Rightarrow> None),
      truthy = (\<lambda>v. case v of JNull \<Rightarrow> False | JInt n \<Rightarrow> n \<noteq> 0 | JStr s \<Rightarrow> s \<noteq> []
                    | JObj kvs \<Rightarrow> kvs \<noteq> []),
      py_int = (\<lambda>v. case v of JInt n \<Rightarrow> Some n | _ \<Rightarrow> None),
      py_str = (\<lambda>v. case v of JStr s \<Rightarrow> s | _ \<Rightarrow> [])\<rparr>"

definition journal_row :: "int \<Rightarrow> string \<Rightarrow> string \<Rightarrow> string \<Rightarrow> nat \<Rightarrow> journal_entry" where
  "journal_row t s a k i =
     \<lparr>entry_ts = t, entry_sha = s, entry_agent = a, entry_task = k, entry_files = [],
      entry_index = i\<rparr>"




text \<open>
  A repository at \<^verbatim>\<open>/repo\<close> where \<^verbatim>\<open>src/*.py\<close> matches a file, a directory and a link
  that resolves outside the repository.
\<close>

definition example_fs :: fs_env where
  "example_fs =
     \<lparr>glob_matches = (\<lambda>pattern. if pattern = ''src/*.py''
          then [''/repo/src/b.py'', ''/repo/src/pkg.py'', ''/repo/src/out.py''] else []),
      resolve = (\<lambda>m. if m = ''/repo/src/out.py'' then Some ''/elsewhere/out.py'' else Some m),
      is_file = (\<lambda>rp. rp \<noteq> ''/repo/src/pkg.py''),
      relative_to_root = (\<lambda>rp. if prefix ''/repo/'' rp then Some (drop 6 rp) else None)\<rparr>"

text \<open>
  A rollback of three commits of alice on task t1, in a clean work tree that git lists
  for the agent branch.
\<close>

definition rollback_ok :: rollback_env where
  "rollback_ok =
     \<lparr>rb_resolved = Inr (''alice'', ''t1''), rb_branch_exists = True,
      rb_to_commit = Some ''c0ffee'', rb_is_ancestor = 0, rb_registered = Some True,
      rb_candidate = None, rb_worktree_add = 0,
      rb_status = Some [], rb_count = Some 3, rb_revert = 0, rb_revert_abort = 0,
      rb_commit = 0, rb_new_sha = Some ''beef01''\<rparr>"

text \<open>A merge without squash that stops on a conflict in one file.\<close>

definition merge_conflicted :: merge_env where
  "merge_conflicted =
     \<lparr>mg_squash = False, mg_merge = 1, mg_status = Some [''UU src/a.py'', ''M  src/b.py''],
      mg_merge_abort = 0, mg_staged = False, mg_commit = 0, mg_merged_sha = Some ''abc123'',
      mg_created_trunk_worktree = False, mg_session_live = False, mg_kill_session = 0,
      mg_agent_worktree = True, mg_branch_exists = True\<rparr>"

section \<open>Properties\<close>

subsection \<open>Garbage collection\<close>

lemma cleanup_loop_table:
  "snd (cleanup_loop e ss (n, T)) =
     filter (\<lambda>r. \<not> (\<exists>s \<in> set ss. s \<noteq> [] \<and> \<not> tmux_session_exists e s
                        \<and> tmux_session r = Some s)) T"
proof (induction ss arbitrary: n T)
  case Nil
  then show ?case by simp
next
  case (Cons s ss)
  show ?case
  proof (cases "s = [] \<or> tmux_session_exists e s")
    case True
    then show ?thesis using Cons.IH [of n T]
      by (auto intro: filter_cong)
  next
    case False
    then show ?thesis
      using Cons.IH [of "n + length (filter (\<lambda>r. tmux_session r = Some s) T)"
                        "filter (\<lambda>r. tmux_session r \<noteq> Some s) T"]
      by (auto simp: delete_by_session_def intro: filter_cong)
  qed
qed

lemma set_select_distinct_sessions:
  "set (select_distinct_sessions T) =
     {s. s \<noteq> [] \<and> (\<exists>r \<in> set T. tmux_session r = Some s)}"
  by (auto simp: select_distinct_sessions_def split: option.splits if_splits)

lemma cleanup_dead_locks_table:
  assumes "tmux_available e"
  shows "snd (cleanup_dead_locks e T) = filter (kept_by_gc e) T"
proof -
  have "(\<not> (\<exists>s \<in> set (select_distinct_sessions T).
            s \<noteq> [] \<and> \<not> tmux_session_exists e s \<and> tmux_session r = Some s))
          = kept_by_gc e r" if "r \<in> set T" for r
    using that unfolding set_select_distinct_sessions kept_by_gc_def
    by (cases "tmux_session r") auto
  then have "filter (\<lambda>r. \<not> (\<exists>s \<in> set (select_distinct_sessions T).
            s \<noteq> [] \<and> \<not> tmux_session_exists e s \<and> tmux_session r = Some s)) T
          = filter (kept_by_gc e) T"
    by (intro filter_cong) auto
  then show ?thesis
    using assms by (simp add: cleanup_dead_locks_def cleanup_loop_table)
qed

lemma cleanup_dead_locks_unavailable:
  "\<not> tmux_available e \<Longrightarrow> cleanup_dead_locks e T = (0, T)"
  by (simp add: cleanup_dead_locks_def)

lemma cleanup_dead_locks_keeps:
  assumes "r \<in> set T" and "kept_by_gc e r"
  shows "r \<in> set (snd (cleanup_dead_locks e T))"
proof (cases "tmux_available e")
  case True
  then show ?thesis using assms by (simp add: cleanup_dead_locks_table)
next
  case False
  then show ?thesis using assms by (simp add: cleanup_dead_locks_unavailable)
qed

lemma cleanup_dead_locks_subset:
  "set (snd (cleanup_dead_locks e T)) \<subseteq> set T"
  by (cases "tmux_available e")
     (auto simp: cleanup_dead_locks_table cleanup_dead_locks_unavailable)




lemma gc_runs_keeps:
  "r \<in> set T \<Longrightarrow> \<forall>e \<in> set es. kept_by_gc e r \<Longrightarrow> r \<in> set (gc_runs es T)"
proof (induction es arbitrary: T)
  case Nil
  then show ?case by (simp add: gc_runs_def)
next
  case (Cons e es)
  from Cons.prems have "r \<in> set (snd (cleanup_dead_locks e T))"
    by (intro cleanup_dead_locks_keeps) simp_all
  with Cons.IH [of "snd (cleanup_dead_locks e T)"] Cons.prems(2)
  show ?case by (simp add: gc_runs_def)
qed

subsection \<open>Lock acquisition\<close>

lemma upsert_loop_keeps:
  "r \<in> set T \<Longrightarrow> lock_file r \<notin> set fs \<Longrightarrow> r \<in> set (upsert_loop fs agent task now session T)"
proof (induction fs arbitrary: T)
  case Nil
  then show ?case by simp
next
  case (Cons f fs)
  let ?row = "\<lparr>lock_file = f, lock_agent = agent, lock_task = task,
               locked_at = now, tmux_session = session\<rparr>"
  let ?T = "case insert_lock ?row T of Some T' \<Rightarrow> T' | None \<Rightarrow> update_lock ?row T"
  from Cons.prems have "r \<in> set ?T"
    by (auto simp: insert_lock_def update_lock_def)
  with Cons.IH [of ?T] Cons.prems(2) show ?case
    by (simp add: Let_def)
qed

lemma upsert_loop_grants:
  assumes "f \<in> set fs" and "distinct fs"
  shows "\<lparr>lock_file = f, lock_agent = agent, lock_task = task,
           locked_at = now, tmux_session = session\<rparr>
           \<in> set (upsert_loop fs agent task now session T)"
  using assms
proof (induction fs arbitrary: T)
  case Nil
  then show ?case by simp
next
  case (Cons g fs)
  let ?row = "\<lambda>f. \<lparr>lock_file = f, lock_agent = agent, lock_task = task,
               locked_at = now, tmux_session = session\<rparr>"
  let ?T = "case insert_lock (?row g) T of Some T' \<Rightarrow> T' | None \<Rightarrow> update_lock (?row g) T"
  show ?case
  proof (cases "f = g")
    case True
    have "?row g \<in> set ?T"
      by (auto simp: insert_lock_def update_lock_def image_iff)
    moreover from Cons.prems(2) have "lock_file (?row g) \<notin> set fs" by simp
    ultimately have "?row g \<in> set (upsert_loop fs agent task now session ?T)"
      by (rule upsert_loop_keeps)
    with True show ?thesis by (simp add: Let_def)
  next
    case False
    with Cons.prems have "f \<in> set fs" "distinct fs" by simp_all
    from Cons.IH [OF this, of ?T] show ?thesis by (simp add: Let_def)
  qed
qed







subsection \<open>The pre-commit hook\<close>



lemma select_by_file_Some:
  "select_by_file T p = Some row \<Longrightarrow> row \<in> set T \<and> lock_file row = p"
  unfolding select_by_file_def by (induction T) (auto split: if_splits)

lemma select_by_file_append_other:
  "lock_file r \<noteq> p \<Longrightarrow> select_by_file (T @ [r]) p = select_by_file T p"
  unfolding select_by_file_def by (induction T) auto

lemma pre_commit_loop_extends:
  "pre_commit_loop agent task_id now staged (cs, T) = (cs', T') \<Longrightarrow>
     (\<exists>new more. T' = T @ new \<and> cs' = cs @ more)"
proof (induction staged arbitrary: cs T)
  case Nil
  then show ?case by simp
next
  case (Cons rel staged)
  show ?case
  proof (cases "select_by_file T rel")
    case None
    with Cons.prems Cons.IH [of cs "T @ [\<lparr>lock_file = rel, lock_agent = agent, lock_task = task_id,
                    locked_at = now, tmux_session = Some []\<rparr>]"]
    show ?thesis by auto
  next
    case (Some row)
    show ?thesis
    proof (cases "lock_agent row \<noteq> agent \<or> lock_task row \<noteq> task_id")
      case True
      with Some Cons.prems Cons.IH [of "cs @ [(rel, lock_agent row, lock_task row)]" T]
      show ?thesis by auto
    next
      case False
      with Some Cons.prems Cons.IH [of cs T] show ?thesis by auto
    qed
  qed
qed

lemma pre_commit_loop_owned:
  "pre_commit_loop agent task_id now staged (cs, T) = ([], T') \<Longrightarrow> p \<in> set staged \<Longrightarrow>
     \<exists>r \<in> set T'. lock_file r = p \<and> lock_agent r = agent \<and> lock_task r = task_id"
proof (induction staged arbitrary: cs T)
  case Nil
  then show ?case by simp
next
  case (Cons rel staged)
  let ?new = "\<lparr>lock_file = rel, lock_agent = agent, lock_task = task_id,
                    locked_at = now, tmux_session = Some []\<rparr>"
  show ?case
  proof (cases "select_by_file T rel")
    case None
    with Cons.prems(1)
    have run: "pre_commit_loop agent task_id now staged (cs, T @ [?new]) = ([], T')" by simp
    show ?thesis
    proof (cases "p = rel")
      case True
      from pre_commit_loop_extends [OF run] have "?new \<in> set T'" by auto
      with True show ?thesis by force
    next
      case False
      with Cons.prems(2) have "p \<in> set staged" by simp
      from Cons.IH [OF run this] show ?thesis .
    qed
  next
    case (Some row)
    show ?thesis
    proof (cases "lock_agent row \<noteq> agent \<or> lock_task row \<noteq> task_id")
      case True
      with Some Cons.prems(1)
      have "pre_commit_loop agent task_id now staged
              (cs @ [(rel, lock_agent row, lock_task row)], T) = ([], T')" by auto
      from pre_commit_loop_extends [OF this] show ?thesis by auto
    next
      case False
      with Some Cons.prems(1)
      have run: "pre_commit_loop agent task_id now staged (cs, T) = ([], T')" by auto
      show ?thesis
      proof (cases "p = rel")
        case True
        from select_by_file_Some [OF Some] pre_commit_loop_extends [OF run] False True
        show ?thesis by auto
      next
        case False
        with Cons.prems(2) have "p \<in> set staged" by simp
        from Cons.IH [OF run this] show ?thesis .
      qed
    qed
  qed
qed

lemma pre_commit_loop_inserts:
  "pre_commit_loop agent task_id now staged (cs, T) = (cs', T') \<Longrightarrow> p \<in> set staged \<Longrightarrow>
   select_by_file T p = None \<Longrightarrow>
     \<lparr>lock_file = p, lock_agent = agent, lock_task = task_id,
      locked_at = now, tmux_session = Some []\<rparr> \<in> set T'"
proof (induction staged arbitrary: cs T)
  case Nil
  then show ?case by simp
next
  case (Cons rel staged)
  let ?new = "\<lparr>lock_file = rel, lock_agent = agent, lock_task = task_id,
                    locked_at = now, tmux_session = Some []\<rparr>"
  show ?case
  proof (cases "p = rel")
    case True
    with Cons.prems
    have run: "pre_commit_loop agent task_id now staged (cs, T @ [?new]) = (cs', T')" by simp
    from pre_commit_loop_extends [OF run] have "?new \<in> set T'" by auto
    with True show ?thesis by simp
  next
    case False
    with Cons.prems(2) have p: "p \<in> set staged" by simp
    show ?thesis
    proof (cases "select_by_file T rel")
      case None
      with Cons.prems(1)
      have run: "pre_commit_loop agent task_id now staged (cs, T @ [?new]) = (cs', T')" by simp
      from False Cons.prems(3) have "select_by_file (T @ [?new]) p = None"
        by (simp add: select_by_file_append_other)
      from Cons.IH [OF run p this] show ?thesis .
    next
      case (Some row)
      show ?thesis
      proof (cases "lock_agent row \<noteq> agent \<or> lock_task row \<noteq> task_id")
        case True
        with Some Cons.prems(1)
        have "pre_commit_loop agent task_id now staged
                (cs @ [(rel, lock_agent row, lock_task row)], T) = (cs', T')" by auto
        from Cons.IH [OF this p Cons.prems(3)] show ?thesis .
      next
        case False
        with Some Cons.prems(1)
        have "pre_commit_loop agent task_id now staged (cs, T) = (cs', T')" by auto
        from Cons.IH [OF this p Cons.prems(3)] show ?thesis .
      qed
    qed
  qed
qed

lemma hook_pre_commit_success:
  assumes "strip (env_skip_hooks env) = []"
    and "strip (env_agent_id env) \<noteq> []" and "strip (env_task_id env) \<noteq> []"
    and "hook_pre_commit fnmatch env now T = (Inr 0, T')"
    and "staged_paths env \<noteq> []"
  shows "pre_commit_loop (strip (env_agent_id env)) (strip (env_task_id env)) now
           (staged_paths env) ([], T) = ([], T')"
  using assms unfolding hook_pre_commit_def Let_def
  by (auto split: option.splits sum.splits if_splits prod.splits)

text \<open>
  C10. When the hook is not skipped, runs for an agent and a task, and succeeds, the
  table it commits has for every staged path a row of the committing (agent, task); a
  staged path that had no row has the new row, stamped with the time of the run and an
  empty session tag.
\<close>

theorem hook_pre_commit_locks_staged:
  assumes "strip (env_skip_hooks env) = []"
    and "strip (env_agent_id env) \<noteq> []" and "strip (env_task_id env) \<noteq> []"
    and "hook_pre_commit fnmatch env now T = (Inr 0, T')"
  shows "\<forall>p \<in> set (staged_paths env).
           (\<exists>r \<in> set T'. lock_file r = p \<and> lock_agent r = strip (env_agent_id env)
                          \<and> lock_task r = strip (env_task_id env)) \<and>
           (select_by_file T p = None \<longrightarrow>
              \<lparr>lock_file = p, lock_agent = strip (env_agent_id env),
               lock_task = strip (env_task_id env), locked_at = now,
               tmux_session = Some []\<rparr> \<in> set T')"
proof
  fix p assume p: "p \<in> set (staged_paths env)"
  then have "staged_paths env \<noteq> []" by auto
  from hook_pre_commit_success [OF assms this]
  have run: "pre_commit_loop (strip (env_agent_id env)) (strip (env_task_id env)) now
           (staged_paths env) ([], T) = ([], T')" .
  from pre_commit_loop_owned [OF run p] pre_commit_loop_inserts [OF run p]
  show "(\<exists>r \<in> set T'. lock_file r = p \<and> lock_agent r = strip (env_agent_id env)
                          \<and> lock_task r = strip (env_task_id env)) \<and>
        (select_by_file T p = None \<longrightarrow>
              \<lparr>lock_file = p, lock_agent = strip (env_agent_id env),
               lock_task = strip (env_task_id env), locked_at = now,
               tmux_session = Some []\<rparr> \<in> set T')"
    by blast
qed

lemma example_hook_run:
  "hook_pre_commit (=) example_hook_env 50 example_locks =
     (Inr 0, example_locks @ [lock_row ''src/new.py'' ''alice'' ''t1'' 50 (Some [])])"
  by code_simp

theorem hook_pre_commit_locks_staged_witness:
  "strip (env_skip_hooks example_hook_env) = [] \<and>
   strip (env_agent_id example_hook_env) = ''alice'' \<and>
   strip (env_task_id example_hook_env) = ''t1'' \<and>
   hook_pre_commit (=) example_hook_env 50 example_locks =
     (Inr 0, example_locks @ [lock_row ''src/new.py'' ''alice'' ''t1'' 50 (Some [])]) \<and>
   ''src/new.py'' \<in> set (staged_paths example_hook_env) \<and>
   select_by_file example_locks ''src/new.py'' = None \<and>
   lock_row ''src/new.py'' ''alice'' ''t1'' 50 (Some [])
     \<in> set (example_locks @ [lock_row ''src/new.py'' ''alice'' ''t1'' 50 (Some [])])"
proof -
  have skip: "strip (env_skip_hooks example_hook_env) = []"
    and agent: "strip (env_agent_id example_hook_env) = ''alice''"
    and task: "strip (env_task_id example_hook_env) = ''t1''"
    and staged: "''src/new.py'' \<in> set (staged_paths example_hook_env)"
    and free: "select_by_file example_locks ''src/new.py'' = None"
    by code_simp+
  from agent have a: "strip (env_agent_id example_hook_env) \<noteq> []" by simp
  from task have t: "strip (env_task_id example_hook_env) \<noteq> []" by simp
  from hook_pre_commit_locks_staged [OF skip a t example_hook_run] staged free
  have "\<lparr>lock_file = ''src/new.py'', lock_agent = strip (env_agent_id example_hook_env),
          lock_task = strip (env_task_id example_hook_env), locked_at = 50,
          tmux_session = Some []\<rparr>
          \<in> set (example_locks @ [lock_row ''src/new.py'' ''alice'' ''t1'' 50 (Some [])])"
    by blast
  then have "lock_row ''src/new.py'' ''alice'' ''t1'' 50 (Some [])
     \<in> set (example_locks @ [lock_row ''src/new.py'' ''alice'' ''t1'' 50 (Some [])])"
    by (simp only: agent task lock_row_def)
  with skip agent task example_hook_run staged free show ?thesis by blast
qed

subsection \<open>The primary key and the count of released rows\<close>

text \<open>
  No operation on the table gives a file two rows, so at most one (agent, task) owns a
  path; and the collector returns the number of rows it deleted.
\<close>

lemma primary_key_cleanup:
  "primary_key T \<Longrightarrow> primary_key (snd (cleanup_dead_locks e T))"
  by (cases "tmux_available e")
     (simp_all add: primary_key_def cleanup_dead_locks_table cleanup_dead_locks_unavailable
        distinct_map_filter)

lemma map_lock_file_update:
  "map lock_file (update_lock r T) = map lock_file T"
  by (induction T) (simp_all add: update_lock_def)

lemma primary_key_upsert:
  "primary_key T \<Longrightarrow> primary_key (upsert_loop fs agent task now session T)"
proof (induction fs arbitrary: T)
  case Nil
  then show ?case by simp
next
  case (Cons f fs)
  let ?row = "\<lparr>lock_file = f, lock_agent = agent, lock_task = task,
               locked_at = now, tmux_session = session\<rparr>"
  from Cons.prems
  have "primary_key (case insert_lock ?row T of Some T' \<Rightarrow> T' | None \<Rightarrow> update_lock ?row T)"
    by (auto simp: primary_key_def insert_lock_def map_lock_file_update)
  from Cons.IH [OF this] show ?case by (simp add: Let_def)
qed

lemma primary_key_acquire:
  "primary_key T \<Longrightarrow> primary_key (snd (acquire_locks e mv now files agent task session T))"
  by (auto simp: acquire_locks_def Let_def primary_key_upsert primary_key_cleanup
      split: option.splits)

lemma select_by_file_None:
  "select_by_file T p = None \<longleftrightarrow> p \<notin> set (map lock_file T)"
  unfolding select_by_file_def by (induction T) auto

lemma primary_key_pre_commit_loop:
  "primary_key T \<Longrightarrow> pre_commit_loop agent task_id now staged (cs, T) = (cs', T') \<Longrightarrow>
     primary_key T'"
proof (induction staged arbitrary: cs T)
  case Nil
  then show ?case by simp
next
  case (Cons rel staged)
  show ?case
  proof (cases "select_by_file T rel")
    case None
    let ?new = "\<lparr>lock_file = rel, lock_agent = agent, lock_task = task_id,
                    locked_at = now, tmux_session = Some []\<rparr>"
    from None Cons.prems(1) have "primary_key (T @ [?new])"
      by (simp add: primary_key_def select_by_file_None)
    moreover from None Cons.prems(2)
    have "pre_commit_loop agent task_id now staged (cs, T @ [?new]) = (cs', T')" by simp
    ultimately show ?thesis by (rule Cons.IH)
  next
    case (Some row)
    with Cons.prems(2) obtain cs2 where
      "pre_commit_loop agent task_id now staged (cs2, T) = (cs', T')"
      by (auto split: if_splits)
    with Cons.prems(1) show ?thesis by (rule Cons.IH)
  qed
qed

lemma primary_key_hook:
  "primary_key T \<Longrightarrow> hook_pre_commit fnmatch env now T = (r, T') \<Longrightarrow> primary_key T'"
  unfolding hook_pre_commit_def Let_def
  by (auto split: if_splits option.splits sum.splits prod.splits
           dest: primary_key_pre_commit_loop)

lemma cleanup_dead_locks_count:
  "fst (cleanup_dead_locks e T) + length (snd (cleanup_dead_locks e T)) = length T"
proof -
  have del: "n + length T0 = m \<Longrightarrow>
      fst (cleanup_loop e ss (n, T0)) + length (snd (cleanup_loop e ss (n, T0))) = m" for ss n T0 m
  proof (induction ss arbitrary: n T0)
    case Nil
    then show ?case by simp
  next
    case (Cons s ss)
    have "length (filter (\<lambda>r. tmux_session r = Some s) T0)
        + length (filter (\<lambda>r. tmux_session r \<noteq> Some s) T0) = length T0"
      by (induction T0) auto
    with Cons.prems
    have "n + length (filter (\<lambda>r. tmux_session r = Some s) T0)
        + length (filter (\<lambda>r. tmux_session r \<noteq> Some s) T0) = m" by simp
    with Cons.IH Cons.prems show ?case
      by (simp add: delete_by_session_def)
  qed
  show ?thesis
    by (cases "tmux_available e")
       (simp_all add: cleanup_dead_locks_def del)
qed

subsection \<open>Locks without a session\<close>

lemma acquire_locks_granted:
  assumes "fst (acquire_locks e mv now files agent task session T) = Inr ()" and "f \<in> set files"
  shows "\<lparr>lock_file = f, lock_agent = agent, lock_task = task,
           locked_at = now, tmux_session = session\<rparr>
           \<in> set (snd (acquire_locks e mv now files agent task session T))"
proof -
  from assms(2) have "sort (remdups files) \<noteq> []"
    by (metis empty_iff empty_set set_remdups set_sort)
  with assms show ?thesis
    by (auto simp: acquire_locks_def Let_def upsert_loop_grants split: if_splits option.splits)
qed

lemma release_locks_removes:
  "\<forall>r \<in> set (snd (release_locks agent task T)). \<not> (lock_agent r = agent \<and> lock_task r = task)"
  by (simp add: release_locks_def)

text \<open>
  C9. A row whose session tag is \<^verbatim>\<open>NULL\<close> or the empty string is in the table after
  one run of the collector, and after any number of runs, whatever tmux reports. Such are
  the rows of an acquisition without a session, as \<^verbatim>\<open>cmd_agent_open\<close> makes it, and the
  rows the pre-commit hook inserts. A release of the owner removes them.
\<close>

theorem untagged_lock_survives_gc:
  "(r \<in> set T \<and> (tmux_session r = None \<or> tmux_session r = Some [])
      \<longrightarrow> r \<in> set (snd (cleanup_dead_locks e T)) \<and> r \<in> set (gc_runs es T)) \<and>
   (fst (acquire_locks e mv now files agent task None T) = Inr () \<and> f \<in> set files
      \<longrightarrow> lock_row f agent task now None
            \<in> set (gc_runs es (snd (acquire_locks e mv now files agent task None T)))) \<and>
   (strip (env_skip_hooks env) = [] \<and> strip (env_agent_id env) \<noteq> [] \<and>
    strip (env_task_id env) \<noteq> [] \<and> hook_pre_commit fnmatch env now T = (Inr 0, T') \<and>
    p \<in> set (staged_paths env) \<and> select_by_file T p = None
      \<longrightarrow> lock_row p (strip (env_agent_id env)) (strip (env_task_id env)) now (Some [])
            \<in> set (gc_runs es T')) \<and>
   (r \<in> set (snd (release_locks agent task T))
      \<longrightarrow> \<not> (lock_agent r = agent \<and> lock_task r = task))"
proof -
  have keep: "kept_by_gc e' x" if "tmux_session x = None \<or> tmux_session x = Some []" for e' x
    using that by (auto simp: kept_by_gc_def)
  have 1: "r \<in> set (snd (cleanup_dead_locks e T)) \<and> r \<in> set (gc_runs es T)"
    if "r \<in> set T \<and> (tmux_session r = None \<or> tmux_session r = Some [])"
    using that keep by (simp add: cleanup_dead_locks_keeps gc_runs_keeps)
  have 2: "lock_row f agent task now None
            \<in> set (gc_runs es (snd (acquire_locks e mv now files agent task None T)))"
    if a: "fst (acquire_locks e mv now files agent task None T) = Inr () \<and> f \<in> set files"
  proof (rule gc_runs_keeps)
    from a acquire_locks_granted [of e mv now files agent task None T f]
    show "lock_row f agent task now None \<in> set (snd (acquire_locks e mv now files agent task None T))"
      by (simp add: lock_row_def)
    show "\<forall>e' \<in> set es. kept_by_gc e' (lock_row f agent task now None)"
      by (simp add: keep lock_row_def)
  qed
  have 3: "lock_row p (strip (env_agent_id env)) (strip (env_task_id env)) now (Some [])
            \<in> set (gc_runs es T')"
    if a: "strip (env_skip_hooks env) = [] \<and> strip (env_agent_id env) \<noteq> [] \<and>
      strip (env_task_id env) \<noteq> [] \<and> hook_pre_commit fnmatch env now T = (Inr 0, T') \<and>
      p \<in> set (staged_paths env) \<and> select_by_file T p = None"
  proof (rule gc_runs_keeps)
    from a have "staged_paths env \<noteq> []" by auto
    with a hook_pre_commit_success [of env fnmatch now T T']
    have "pre_commit_loop (strip (env_agent_id env)) (strip (env_task_id env)) now
           (staged_paths env) ([], T) = ([], T')" by simp
    from pre_commit_loop_inserts [OF this] a
    show "lock_row p (strip (env_agent_id env)) (strip (env_task_id env)) now (Some []) \<in> set T'"
      by (simp add: lock_row_def)
    show "\<forall>e' \<in> set es. kept_by_gc e'
           (lock_row p (strip (env_agent_id env)) (strip (env_task_id env)) now (Some []))"
      by (simp add: keep lock_row_def)
  qed
  have 4: "\<not> (lock_agent r = agent \<and> lock_task r = task)"
    if "r \<in> set (snd (release_locks agent task T))"
    using that release_locks_removes by blast
  from 1 2 3 4 show ?thesis by blast
qed

lemma example_acquire_new:
  "acquire_locks tmux_hydra_only 32766 100 [''src/z.py''] ''bob'' ''t2'' None example_locks =
     (Inr (),
      [lock_row ''src/a.py'' ''alice'' ''t1'' 10 (Some ''hydra''),
       lock_row ''src/c.py'' ''carol'' ''t3'' 12 None,
       lock_row ''src/d.py'' ''dave'' ''t4'' 13 (Some []),
       lock_row ''src/z.py'' ''bob'' ''t2'' 100 None])"
  by code_simp

theorem untagged_lock_survives_gc_witness:
  "lock_row ''src/c.py'' ''carol'' ''t3'' 12 None \<in> set example_locks \<and>
   tmux_session (lock_row ''src/c.py'' ''carol'' ''t3'' 12 None) = None \<and>
   lock_row ''src/c.py'' ''carol'' ''t3'' 12 None
     \<in> set (snd (cleanup_dead_locks tmux_hydra_only example_locks)) \<and>
   lock_row ''src/c.py'' ''carol'' ''t3'' 12 None
     \<in> set (gc_runs [tmux_hydra_only, tmux_missing, tmux_hydra_only] example_locks) \<and>
   fst (acquire_locks tmux_hydra_only 32766 100 [''src/z.py''] ''bob'' ''t2'' None example_locks) = Inr () \<and>
   lock_row ''src/z.py'' ''bob'' ''t2'' 100 None
     \<in> set (gc_runs [tmux_hydra_only, tmux_missing]
          (snd (acquire_locks tmux_hydra_only 32766 100 [''src/z.py''] ''bob'' ''t2'' None example_locks))) \<and>
   hook_pre_commit (=) example_hook_env 50 example_locks =
     (Inr 0, example_locks @ [lock_row ''src/new.py'' ''alice'' ''t1'' 50 (Some [])]) \<and>
   lock_row ''src/new.py'' ''alice'' ''t1'' 50 (Some [])
     \<in> set (gc_runs [tmux_hydra_only, tmux_missing]
          (example_locks @ [lock_row ''src/new.py'' ''alice'' ''t1'' 50 (Some [])])) \<and>
   lock_row ''src/c.py'' ''carol'' ''t3'' 12 None
     \<notin> set (snd (release_locks ''carol'' ''t3'' example_locks))"
proof -
  let ?c = "lock_row ''src/c.py'' ''carol'' ''t3'' 12 None"
  let ?es = "[tmux_hydra_only, tmux_missing]"
  have c: "?c \<in> set example_locks" and n: "tmux_session ?c = None"
    and owner: "lock_agent ?c = ''carol'' \<and> lock_task ?c = ''t3''"
    by (simp_all add: example_locks_def lock_row_def)
  have acq: "fst (acquire_locks tmux_hydra_only 32766 100 [''src/z.py''] ''bob'' ''t2'' None example_locks) = Inr ()"
    by (simp add: example_acquire_new)
  have hook: "strip (env_skip_hooks example_hook_env) = []"
    "strip (env_agent_id example_hook_env) = ''alice''"
    "strip (env_task_id example_hook_env) = ''t1''"
    "''src/new.py'' \<in> set (staged_paths example_hook_env)"
    "select_by_file example_locks ''src/new.py'' = None"
    by code_simp+
  from untagged_lock_survives_gc [where r = ?c and T = example_locks and e = tmux_hydra_only
      and es = "[tmux_hydra_only, tmux_missing, tmux_hydra_only]"] c n
  have 1: "?c \<in> set (snd (cleanup_dead_locks tmux_hydra_only example_locks))"
    "?c \<in> set (gc_runs [tmux_hydra_only, tmux_missing, tmux_hydra_only] example_locks)"
    by blast+
  from untagged_lock_survives_gc [where e = tmux_hydra_only and now = 100
      and files = "[''src/z.py'']" and agent = "''bob''" and task = "''t2''"
      and T = example_locks and f = "''src/z.py''" and es = ?es] acq
  have 2: "lock_row ''src/z.py'' ''bob'' ''t2'' 100 None
     \<in> set (gc_runs ?es
          (snd (acquire_locks tmux_hydra_only 32766 100 [''src/z.py''] ''bob'' ''t2'' None example_locks)))"
    by simp
  from untagged_lock_survives_gc [where env = example_hook_env and fnmatch = "(=)" and now = 50
      and T = example_locks and p = "''src/new.py''" and es = ?es
      and T' = "example_locks @ [lock_row ''src/new.py'' ''alice'' ''t1'' 50 (Some [])]"]
    hook example_hook_run
  have 3: "lock_row ''src/new.py'' ''alice'' ''t1'' 50 (Some [])
     \<in> set (gc_runs ?es (example_locks @ [lock_row ''src/new.py'' ''alice'' ''t1'' 50 (Some [])]))"
    by simp
  from untagged_lock_survives_gc [where r = ?c and agent = "''carol''" and task = "''t3''"
      and T = example_locks] owner
  have 4: "?c \<notin> set (snd (release_locks ''carol'' ''t3'' example_locks))"
    by blast
  from c n 1 acq 2 example_hook_run 3 4 show ?thesis by blast
qed

subsection \<open>The journal\<close>




lemma read_loop_index_bounds:
  "e \<in> set (fst (read_loop lib idx lines)) \<Longrightarrow>
     idx \<le> entry_index e \<and> entry_index e < idx + length lines"
proof (induction lines arbitrary: idx)
  case Nil
  then show ?case by simp
next
  case (Cons raw rest)
  from Cons.prems have "entry_index e = idx \<or> e \<in> set (fst (read_loop lib (Suc idx) rest))"
    by (auto simp: Let_def split: prod.splits if_splits option.splits)
  then show ?case
  proof
    assume "entry_index e = idx" then show ?thesis by simp
  next
    assume "e \<in> set (fst (read_loop lib (Suc idx) rest))"
    from Cons.IH [OF this] show ?thesis by simp
  qed
qed

lemma read_loop_index_increasing:
  "sorted_wrt (<) (map entry_index (fst (read_loop lib idx lines)))"
proof (induction lines arbitrary: idx)
  case Nil
  then show ?case by simp
next
  case (Cons raw rest)
  have "idx < entry_index e" if "e \<in> set (fst (read_loop lib (Suc idx) rest))" for e
    using read_loop_index_bounds [OF that] by simp
  with Cons.IH [of "Suc idx"] show ?case
    by (auto simp: Let_def split: prod.splits if_splits option.splits)
qed

lemma read_loop_line:
  "e \<in> set (fst (read_loop lib idx lines)) \<Longrightarrow>
     \<exists>obj. json_loads lib (strip (lines ! (entry_index e - idx))) = Some obj \<and>
           is_dict lib obj \<and>
           get_int lib obj ''ts'' = Some (entry_ts e) \<and>
           entry_sha e = get_str lib obj ''sha'' \<and>
           entry_agent e = get_str lib obj ''agent'' \<and>
           entry_task e = get_str lib obj ''task'' \<and>
           entry_files e = get_str lib obj ''files''"
proof (induction lines arbitrary: idx)
  case Nil
  then show ?case by simp
next
  case (Cons raw rest)
  show ?case
  proof (cases "e \<in> set (fst (read_loop lib (Suc idx) rest))")
    case True
    from read_loop_index_bounds [OF True] have "entry_index e - idx = Suc (entry_index e - Suc idx)"
      by arith
    with Cons.IH [OF True] show ?thesis by simp
  next
    case False
    with Cons.prems show ?thesis
      by (auto simp: Let_def split: prod.splits if_splits option.splits)
  qed
qed

lemma sorted_distinct_nth_less:
  fixes ks :: "('a :: linorder) list"
  assumes "sorted ks" and "distinct ks" and "i < j" and "j < length ks"
  shows "ks ! i < ks ! j"
proof -
  from assms have "ks ! i \<le> ks ! j" by (simp add: sorted_nth_mono)
  moreover from assms have "ks ! i \<noteq> ks ! j" by (simp add: nth_eq_iff_index_eq)
  ultimately show ?thesis by simp
qed

text \<open>
  C8. \<^verbatim>\<open>changes\<close> prints exactly the parsed entries that pass the filters, ordered
  by (timestamp, index): an earlier entry has a smaller timestamp, or the same timestamp
  and a smaller index; and the index of an entry is the position in the file of the line
  it was parsed from.
\<close>

theorem cmd_changes_order:
  "(let entries = fst (read_journal_entries lib file_lines);
        out = cmd_changes lib file_lines since_ts agent_filter task_filter
    in set out = {e \<in> set entries. changes_keep since_ts agent_filter task_filter e} \<and>
       length out = length (filter (changes_keep since_ts agent_filter task_filter) entries) \<and>
       (\<forall>i j. i < j \<and> j < length out \<longrightarrow>
          entry_ts (out ! i) < entry_ts (out ! j) \<or>
          entry_ts (out ! i) = entry_ts (out ! j) \<and> entry_index (out ! i) < entry_index (out ! j)) \<and>
       (\<forall>e \<in> set out. \<exists>lines obj.
          file_lines = Some lines \<and> entry_index e < length lines \<and>
          json_loads lib (strip (lines ! entry_index e)) = Some obj \<and>
          get_int lib obj ''ts'' = Some (entry_ts e)))"
proof -
  define entries where "entries = fst (read_journal_entries lib file_lines)"
  define keep where "keep = changes_keep since_ts agent_filter task_filter"
  define key where "key = (\<lambda>x :: journal_entry. (entry_ts x, entry_index x))"
  define out where "out = cmd_changes lib file_lines since_ts agent_filter task_filter"
  have out: "out = sort_key key (filter keep entries)"
    by (simp add: out_def cmd_changes_def entries_def keep_def key_def Let_def)
  have idx: "sorted_wrt (<) (map entry_index entries)"
    unfolding entries_def read_journal_entries_def
    by (cases file_lines) (simp_all add: read_loop_index_increasing)
  then have "distinct (map entry_index entries)"
    by (simp add: strict_sorted_iff)
  then have "distinct (map entry_index (filter keep entries))"
    by (simp add: distinct_map_filter)
  then have "distinct (map key (filter keep entries))"
    unfolding key_def distinct_map by (auto simp: inj_on_def)
  then have dist: "distinct (map key out)"
    unfolding out by (metis distinct_map distinct_sort set_sort)
  have sorted: "sorted (map key out)"
    unfolding out by (rule sorted_sort_key)
  have order: "entry_ts (out ! i) < entry_ts (out ! j) \<or>
          entry_ts (out ! i) = entry_ts (out ! j) \<and> entry_index (out ! i) < entry_index (out ! j)"
    if "i < j" "j < length out" for i j
  proof -
    from that sorted_distinct_nth_less [OF sorted dist, of i j]
    have "key (out ! i) < key (out ! j)" by simp
    then show ?thesis by (auto simp: key_def)
  qed
  have line: "\<exists>lines obj. file_lines = Some lines \<and> entry_index e < length lines \<and>
          json_loads lib (strip (lines ! entry_index e)) = Some obj \<and>
          get_int lib obj ''ts'' = Some (entry_ts e)" if "e \<in> set out" for e
  proof -
    from that have e: "e \<in> set entries" by (simp add: out)
    then obtain lines where l: "file_lines = Some lines"
      and el: "e \<in> set (fst (read_loop lib 0 lines))"
      unfolding entries_def read_journal_entries_def by (cases file_lines) auto
    from read_loop_index_bounds [OF el] read_loop_line [OF el] l show ?thesis by auto
  qed
  have "set out = {e \<in> set entries. keep e}" by (auto simp: out)
  moreover have "length out = length (filter keep entries)" by (simp add: out)
  ultimately show ?thesis
    using order line
    unfolding Let_def entries_def [symmetric] out_def [symmetric] keep_def [symmetric]
    by blast
qed


lemma example_changes:
  "cmd_changes example_json (Some example_journal) None None None =
     [journal_row 3 ''c2'' ''bob'' ''t2'' 1,
      journal_row 5 ''c1'' ''alice'' ''t1'' 0,
      journal_row 5 ''c3'' ''bob'' ''t2'' 3]"
  by code_simp

theorem cmd_changes_order_witness:
  "cmd_changes example_json (Some example_journal) None None None =
     [journal_row 3 ''c2'' ''bob'' ''t2'' 1,
      journal_row 5 ''c1'' ''alice'' ''t1'' 0,
      journal_row 5 ''c3'' ''bob'' ''t2'' 3] \<and>
   entry_ts (journal_row 5 ''c1'' ''alice'' ''t1'' 0) = entry_ts (journal_row 5 ''c3'' ''bob'' ''t2'' 3) \<and>
   entry_index (journal_row 5 ''c1'' ''alice'' ''t1'' 0) < entry_index (journal_row 5 ''c3'' ''bob'' ''t2'' 3) \<and>
   (\<exists>obj. json_loads example_json (strip (example_journal ! 3)) = Some obj \<and>
          get_int example_json obj ''ts'' = Some 5)"
proof -
  let ?out = "cmd_changes example_json (Some example_journal) None None None"
  let ?e = "journal_row 5 ''c3'' ''bob'' ''t2'' 3"
  have same: "entry_ts (journal_row 5 ''c1'' ''alice'' ''t1'' 0) = entry_ts ?e"
    by (simp add: journal_row_def)
  from cmd_changes_order [of example_json "Some example_journal" None None None]
  have "(1::nat) < 2 \<and> 2 < length ?out \<longrightarrow>
          entry_ts (?out ! 1) < entry_ts (?out ! 2) \<or>
          entry_ts (?out ! 1) = entry_ts (?out ! 2) \<and> entry_index (?out ! 1) < entry_index (?out ! 2)"
    unfolding Let_def by blast
  then have "entry_ts (journal_row 5 ''c1'' ''alice'' ''t1'' 0) < entry_ts ?e \<or>
          entry_ts (journal_row 5 ''c1'' ''alice'' ''t1'' 0) = entry_ts ?e \<and>
          entry_index (journal_row 5 ''c1'' ''alice'' ''t1'' 0) < entry_index ?e"
    by (simp add: example_changes)
  with same have less: "entry_index (journal_row 5 ''c1'' ''alice'' ''t1'' 0) < entry_index ?e"
    by simp
  have "?e \<in> set ?out" by (simp add: example_changes)
  with cmd_changes_order [of example_json "Some example_journal" None None None]
  have "\<exists>lines obj. Some example_journal = Some lines \<and> entry_index ?e < length lines \<and>
          json_loads example_json (strip (lines ! entry_index ?e)) = Some obj \<and>
          get_int example_json obj ''ts'' = Some (entry_ts ?e)"
    unfolding Let_def by blast
  then have line: "\<exists>obj. json_loads example_json (strip (example_journal ! 3)) = Some obj \<and>
          get_int example_json obj ''ts'' = Some 5"
    by (simp add: journal_row_def)
  from same less line example_changes show ?thesis by blast
qed

subsection \<open>The snapshot debounce wait\<close>















subsection \<open>Allow patterns and their expansion\<close>



lemma is_glob_pattern_chars:
  "is_glob_pattern pattern \<longleftrightarrow> (\<exists>ch \<in> set ''*?[]''. ch \<in> set pattern)"
proof -
  have "CHR ''*'' \<in> set pattern" if "sublist ''**'' pattern"
    using that by (auto simp: sublist_def)
  then show ?thesis by (auto simp: is_glob_pattern_def)
qed

lemma is_glob_pattern_replace_backslash:
  "is_glob_pattern (replace_backslash s) = is_glob_pattern s"
  by (auto simp: is_glob_pattern_chars replace_backslash_def image_iff)

lemma validate_allow_pattern_plain:
  assumes "validate_allow_pattern raw = Inr pattern"
    and "\<not> prefix ''.'' raw" and "\<not> prefix [CHR 0x5C] raw"
  shows "pattern = replace_backslash raw"
proof -
  from assms(1) have ne: "raw \<noteq> []" and nabs: "\<not> prefix ''/'' raw"
    and p: "pattern = lstrip_chars ''./'' (replace_backslash raw)"
    by (auto simp: validate_allow_pattern_def isabs_def Let_def split: if_splits)
  from ne obtain c cs where raw: "raw = c # cs" by (cases raw) auto
  with assms(2,3) nabs have "c \<noteq> CHR ''.''" "c \<noteq> CHR 0x5C" "c \<noteq> CHR ''/''" by auto
  with raw p show ?thesis
    by (simp add: lstrip_chars_def replace_backslash_def)
qed

lemma expand_loop_literal:
  "expand_loop fs allow = Inr locked \<Longrightarrow> raw \<in> set allow \<Longrightarrow>
   validate_allow_pattern raw = Inr pattern \<Longrightarrow> \<not> is_glob_pattern pattern \<Longrightarrow>
     as_posix pattern \<in> set locked"
  by (induction allow arbitrary: locked)
     (auto split: sum.splits if_splits)

lemma expand_loop_validates:
  "expand_loop fs allow = Inr locked \<Longrightarrow> raw \<in> set allow \<Longrightarrow>
     \<exists>pattern. validate_allow_pattern raw = Inr pattern"
  by (induction allow arbitrary: locked)
     (auto split: sum.splits if_splits)

lemma glob_files_origin:
  "x \<in> set (glob_files fs matches) \<Longrightarrow>
     \<exists>m \<in> set matches. \<exists>rp. resolve fs m = Some rp \<and> is_file fs rp \<and> relative_to_root fs rp = Some x"
  by (induction matches) (auto split: option.splits if_splits)

lemma expand_loop_origin:
  "expand_loop fs allow = Inr locked \<Longrightarrow> x \<in> set locked \<Longrightarrow>
     (\<exists>raw \<in> set allow. \<exists>pattern. validate_allow_pattern raw = Inr pattern \<and>
         \<not> is_glob_pattern pattern \<and> x = as_posix pattern) \<or>
     (\<exists>raw \<in> set allow. \<exists>pattern. validate_allow_pattern raw = Inr pattern \<and>
         is_glob_pattern pattern \<and>
         (\<exists>m \<in> set (glob_matches fs pattern). \<exists>rp.
            resolve fs m = Some rp \<and> is_file fs rp \<and> relative_to_root fs rp = Some x))"
proof (induction allow arbitrary: locked)
  case Nil
  then show ?case by simp
next
  case (Cons raw allow)
  from Cons.prems(1) obtain pattern rest where v: "validate_allow_pattern raw = Inr pattern"
    and rest: "expand_loop fs allow = Inr rest"
    and locked: "locked = (if \<not> is_glob_pattern pattern then as_posix pattern # rest
                            else glob_files fs (glob_matches fs pattern) @ rest)"
    by (auto split: sum.splits if_splits)
  show ?case
  proof (cases "x \<in> set rest")
    case True
    from Cons.IH [OF rest True] show ?thesis by auto
  next
    case False
    show ?thesis
    proof (cases "is_glob_pattern pattern")
      case True
      with False locked Cons.prems(2) have "x \<in> set (glob_files fs (glob_matches fs pattern))"
        by simp
      from glob_files_origin [OF this] v True show ?thesis by auto
    next
      case glob: False
      with False locked Cons.prems(2) have "x = as_posix pattern" by simp
      with v glob show ?thesis by auto
    qed
  qed
qed

text \<open>
  C5 (as amended). When the expansion returns, the list is sorted and free of
  duplicates. A pattern without glob characters that does not begin with a dot or a
  backslash is in it whether or not a file exists, in the form the validator and
  \<^verbatim>\<open>Path\<close> give it: backslashes turned into slashes, empty and \<^verbatim>\<open>.\<close> parts removed;
  so it is there verbatim when that form is the pattern itself. Every other path of the
  list comes from a match of a glob pattern that resolves to a regular file under the
  root.
\<close>

theorem expand_allow_sorted_paths:
  assumes "expand_allow fs allow = Inr out"
  shows "sorted out \<and> distinct out \<and>
    (\<forall>raw \<in> set allow.
       \<not> is_glob_pattern raw \<and> \<not> prefix ''.'' raw \<and> \<not> prefix [CHR 0x5C] raw
         \<longrightarrow> as_posix (replace_backslash raw) \<in> set out \<and>
             (as_posix (replace_backslash raw) = raw \<longrightarrow> raw \<in> set out)) \<and>
    (\<forall>x \<in> set out.
       (\<exists>raw \<in> set allow. \<exists>pattern. validate_allow_pattern raw = Inr pattern \<and>
           \<not> is_glob_pattern pattern \<and> x = as_posix pattern) \<or>
       (\<exists>raw \<in> set allow. \<exists>pattern. validate_allow_pattern raw = Inr pattern \<and>
           is_glob_pattern pattern \<and>
           (\<exists>m \<in> set (glob_matches fs pattern). \<exists>rp.
              resolve fs m = Some rp \<and> is_file fs rp \<and> relative_to_root fs rp = Some x)))"
proof -
  from assms obtain locked where loop: "expand_loop fs allow = Inr locked"
    and out: "out = sort (remdups locked)"
    by (auto simp: expand_allow_def split: sum.splits)
  have set_out: "set out = set locked" by (simp add: out)
  have 1: "sorted out" "distinct out" by (simp_all add: out)
  have 2: "as_posix (replace_backslash raw) \<in> set out"
    if "raw \<in> set allow" "\<not> is_glob_pattern raw" "\<not> prefix ''.'' raw" "\<not> prefix [CHR 0x5C] raw"
    for raw
  proof -
    from expand_loop_validates [OF loop that(1)]
    obtain pattern where v: "validate_allow_pattern raw = Inr pattern" by blast
    from validate_allow_pattern_plain [OF v that(3,4)]
    have p: "pattern = replace_backslash raw" .
    with that(2) have "\<not> is_glob_pattern pattern"
      by (simp add: is_glob_pattern_replace_backslash)
    from expand_loop_literal [OF loop that(1) v this] p set_out show ?thesis by simp
  qed
  have 3: "(\<exists>raw \<in> set allow. \<exists>pattern. validate_allow_pattern raw = Inr pattern \<and>
           \<not> is_glob_pattern pattern \<and> x = as_posix pattern) \<or>
       (\<exists>raw \<in> set allow. \<exists>pattern. validate_allow_pattern raw = Inr pattern \<and>
           is_glob_pattern pattern \<and>
           (\<exists>m \<in> set (glob_matches fs pattern). \<exists>rp.
              resolve fs m = Some rp \<and> is_file fs rp \<and> relative_to_root fs rp = Some x))"
    if "x \<in> set out" for x
    using expand_loop_origin [OF loop] that set_out by simp
  from 1 2 3 show ?thesis by (metis (no_types, lifting))
qed


lemma split_on_no_sep: "w \<in> set (split_on sep s) \<Longrightarrow> sep \<notin> set w"
proof (induction s arbitrary: w)
  case Nil
  then show ?case by simp
next
  case (Cons c s)
  then show ?case
    by (cases "split_on sep s") (auto split: if_splits)
qed

lemma join_slash_Cons: "\<exists>rest. join_slash (x # xs) = x @ rest"
  by (cases xs) simp_all

text \<open>A literal pattern is added as a relative path.\<close>

lemma as_posix_relative: "\<not> isabs (as_posix pattern)"
proof -
  let ?parts = "filter (\<lambda>part. part \<noteq> [] \<and> part \<noteq> ''.'') (split_on CHR ''/'' pattern)"
  show ?thesis
  proof (cases ?parts)
    case Nil
    then show ?thesis by (simp add: as_posix_def isabs_def)
  next
    case (Cons x xs)
    then have "x \<in> set ?parts" by simp
    then have x: "x \<noteq> []" "CHR ''/'' \<notin> set x"
      by (auto dest: split_on_no_sep)
    then obtain c cs where xc: "x = c # cs" "c \<noteq> CHR ''/''" by (cases x) auto
    from join_slash_Cons [of x xs] obtain rest where "join_slash (x # xs) = x @ rest" ..
    with Cons xc show ?thesis by (simp add: as_posix_def isabs_def)
  qed
qed

lemma example_expand:
  "expand_allow example_fs [''src/*.py'', ''docs/new.md'', ''src//a.py''] =
     Inr [''docs/new.md'', ''src/a.py'', ''src/b.py'']"
  by code_simp

theorem expand_allow_sorted_paths_witness:
  "expand_allow example_fs [''src/*.py'', ''docs/new.md'', ''src//a.py''] =
     Inr [''docs/new.md'', ''src/a.py'', ''src/b.py''] \<and>
   sorted [''docs/new.md'', ''src/a.py'', ''src/b.py''] \<and>
   distinct [''docs/new.md'', ''src/a.py'', ''src/b.py''] \<and>
   \<not> is_glob_pattern ''docs/new.md'' \<and> \<not> prefix ''.'' ''docs/new.md'' \<and>
   \<not> prefix [CHR 0x5C] ''docs/new.md'' \<and>
   as_posix (replace_backslash ''docs/new.md'') = ''docs/new.md'' \<and>
   ''docs/new.md'' \<in> set [''docs/new.md'', ''src/a.py'', ''src/b.py'']"
proof -
  have lit: "\<not> is_glob_pattern ''docs/new.md''" "\<not> prefix ''.'' ''docs/new.md''"
    "\<not> prefix [CHR 0x5C] ''docs/new.md''"
    "as_posix (replace_backslash ''docs/new.md'') = ''docs/new.md''"
    "''docs/new.md'' \<in> set [''src/*.py'', ''docs/new.md'', ''src//a.py'']"
    by code_simp+
  from expand_allow_sorted_paths [OF example_expand] lit
  have "sorted [''docs/new.md'', ''src/a.py'', ''src/b.py'']"
    and "distinct [''docs/new.md'', ''src/a.py'', ''src/b.py'']"
    and "''docs/new.md'' \<in> set [''docs/new.md'', ''src/a.py'', ''src/b.py'']"
    by blast+
  with example_expand lit(1-4) show ?thesis by blast
qed

text \<open>
  C5 as stated fails: a literal pattern is normalised before it is added, so
  \<^verbatim>\<open>src//a.py\<close> and \<^verbatim>\<open>./docs/new.md\<close> are not in the result verbatim.
\<close>

theorem expand_allow_counterexample:
  "\<not> is_glob_pattern ''src//a.py'' \<and>
   expand_allow example_fs [''src//a.py''] = Inr [''src/a.py''] \<and>
   ''src//a.py'' \<notin> set [''src/a.py''] \<and>
   \<not> is_glob_pattern ''./docs/new.md'' \<and>
   expand_allow example_fs [''./docs/new.md''] = Inr [''docs/new.md''] \<and>
   ''./docs/new.md'' \<notin> set [''docs/new.md'']"
  by code_simp

text \<open>
  The validator strips leading characters \<^verbatim>\<open>.\<close> and \<^verbatim>\<open>/\<close> one by one
  (\<^verbatim>\<open>lstrip("./")\<close>), so the dot of a dot-file goes too.
\<close>

lemma expand_allow_dotfile:
  "\<not> is_glob_pattern ''.gitignore'' \<and>
   validate_allow_pattern ''.gitignore'' = Inr ''gitignore'' \<and>
   expand_allow example_fs [''.gitignore''] = Inr [''gitignore'']"
  by code_simp

text \<open>
  C4 fails on the code. A \<^verbatim>\<open>..\<close> segment in the last position passes the validator:
  \<^verbatim>\<open>src/..\<close> is returned as it is and \<^verbatim>\<open>_path_is_allowed\<close> answers \<open>False\<close> for
  a path instead of raising; \<^verbatim>\<open>./..\<close>, the parent of the root, is returned as the
  empty pattern. And \<^verbatim>\<open>_path_is_allowed\<close> returns at the first pattern that matches,
  before it validates the patterns after it.
\<close>

theorem validate_allow_pattern_trailing_dotdot:
  "has_dotdot_segment ''src/..'' \<and> validate_allow_pattern ''src/..'' = Inr ''src/..'' \<and>
   path_is_allowed (=) ''lib/a.py'' [''src/..''] = Inr False \<and>
   has_dotdot_segment ''./..'' \<and> validate_allow_pattern ''./..'' = Inr [] \<and>
   has_dotdot_segment ''../x'' \<and>
   path_is_allowed (=) ''src/a.py'' [''src/a.py'', ''../x''] = Inr True"
  by code_simp

text \<open>What the validator does reject.\<close>

lemma validate_allow_pattern_rejects:
  "pattern = [] \<Longrightarrow> validate_allow_pattern pattern = Inl EmptyAllowPattern"
  "pattern \<noteq> [] \<Longrightarrow> isabs pattern \<Longrightarrow>
     validate_allow_pattern pattern = Inl (AllowPatternNotRelative pattern)"
  "pattern \<noteq> [] \<Longrightarrow> \<not> isabs pattern \<Longrightarrow>
   prefix ''../'' (replace_backslash pattern) \<or> sublist ''/../'' (replace_backslash pattern)
     \<or> replace_backslash pattern = ''..'' \<Longrightarrow>
     validate_allow_pattern pattern = Inl (AllowPatternEscapesRoot pattern)"
  by (simp_all add: validate_allow_pattern_def Let_def)

lemma path_is_allowed_raises_first:
  "validate_allow_pattern raw = Inl err \<Longrightarrow>
     path_is_allowed fnmatch path (raw # allow_patterns) = Inl err"
  by simp

lemma split_on_first:
  "split_on sep s =
     takeWhile (\<lambda>c. c \<noteq> sep) s #
       (case dropWhile (\<lambda>c. c \<noteq> sep) s of [] \<Rightarrow> [] | _ # rest \<Rightarrow> split_on sep rest)"
  by (induction s) (auto split: list.splits)

lemma split_on_not_Nil: "split_on sep s \<noteq> []"
  by (subst split_on_first) simp

lemma sublist_skip:
  "a \<notin> set w \<Longrightarrow> sublist (a # xs) (w @ ys) \<longleftrightarrow> sublist (a # xs) ys"
  by (induction w) (auto simp: sublist_Cons_right)

lemma prefix_dotdot_segment:
  assumes "CHR ''/'' \<notin> set w"
  shows "prefix ''../'' (w @ CHR ''/'' # rest) \<longleftrightarrow> w = ''..''"
proof
  assume "prefix ''../'' (w @ CHR ''/'' # rest)"
  then obtain zs where eq: "w @ CHR ''/'' # rest = ''../'' @ zs" by (auto simp: prefix_def)
  show "w = ''..''"
  proof (cases w)
    case Nil
    with eq show ?thesis by simp
  next
    case (Cons a w1)
    note w = Cons
    show ?thesis
    proof (cases w1)
      case Nil
      with w eq show ?thesis by simp
    next
      case (Cons b w2)
      note w1 = Cons
      show ?thesis
      proof (cases w2)
        case Nil
        with w w1 eq show ?thesis by simp
      next
        case (Cons c w3)
        with w w1 eq have "c = CHR ''/''" by simp
        with w w1 Cons assms show ?thesis by simp
      qed
    qed
  qed
next
  assume "w = ''..''"
  then show "prefix ''../'' (w @ CHR ''/'' # rest)" by simp
qed

lemma dotdot_before_last:
  "''..'' \<in> set (butlast (split_on CHR ''/'' s)) \<longleftrightarrow> prefix ''../'' s \<or> sublist ''/../'' s"
proof (induction s rule: length_induct)
  case (1 s)
  let ?w = "takeWhile (\<lambda>c. c \<noteq> CHR ''/'') s"
  let ?d = "dropWhile (\<lambda>c. c \<noteq> CHR ''/'') s"
  have w: "CHR ''/'' \<notin> set ?w" by (auto dest: set_takeWhileD)
  have s: "s = ?w @ ?d" by simp
  show ?case
  proof (cases ?d)
    case Nil
    then have none: "CHR ''/'' \<notin> set s" using s w by (metis append_Nil2)
    have "split_on CHR ''/'' s =
        ?w # (case ?d of [] \<Rightarrow> [] | _ # rest \<Rightarrow> split_on CHR ''/'' rest)"
      by (rule split_on_first)
    with Nil have "split_on CHR ''/'' s = [?w]" by (simp only: list.case)
    moreover from none have "\<not> prefix ''../'' s" by (auto simp: prefix_def)
    moreover from none have "\<not> sublist ''/../'' s" by (auto simp: sublist_def)
    ultimately show ?thesis by simp
  next
    case (Cons c rest)
    then have c: "c = CHR ''/''" by (simp add: dropWhile_eq_Cons_conv)
    from Cons c have s': "s = ?w @ CHR ''/'' # rest"
      by (metis takeWhile_dropWhile_id)
    have "length s = length ?w + Suc (length rest)"
      by (subst s') simp
    then have "length rest < length s" by simp
    with 1 have IH: "''..'' \<in> set (butlast (split_on CHR ''/'' rest))
        \<longleftrightarrow> prefix ''../'' rest \<or> sublist ''/../'' rest" by blast
    have "split_on CHR ''/'' s =
        ?w # (case ?d of [] \<Rightarrow> [] | _ # rest \<Rightarrow> split_on CHR ''/'' rest)"
      by (rule split_on_first)
    with Cons have split: "split_on CHR ''/'' s = ?w # split_on CHR ''/'' rest"
      by (simp only: list.case)
    have a: "''..'' \<in> set (butlast (split_on CHR ''/'' s))
        \<longleftrightarrow> ?w = ''..'' \<or> ''..'' \<in> set (butlast (split_on CHR ''/'' rest))"
      unfolding split by (auto simp: split_on_not_Nil)
    have b: "?w = ''..'' \<longleftrightarrow> prefix ''../'' s"
      using prefix_dotdot_segment [OF w, of rest] s' by simp
    have "sublist ''/../'' s \<longleftrightarrow> sublist ''/../'' (CHR ''/'' # rest)"
      using sublist_skip [OF w, of "''../''" "CHR ''/'' # rest"] s' by simp
    then have d: "sublist ''/../'' s \<longleftrightarrow> prefix ''../'' rest \<or> sublist ''/../'' rest"
      by (simp add: sublist_Cons_right)
    from a b d IH show ?thesis by blast
  qed
qed

text \<open>
  The patterns the traversal check rejects are exactly those with a \<^verbatim>\<open>..\<close> segment
  before the last one, and the pattern \<^verbatim>\<open>..\<close> itself.
\<close>

lemma validate_allow_pattern_escape_iff:
  "validate_allow_pattern pattern = Inl (AllowPatternEscapesRoot pattern) \<longleftrightarrow>
     pattern \<noteq> [] \<and> \<not> isabs pattern \<and>
     (''..'' \<in> set (butlast (split_on CHR ''/'' (replace_backslash pattern))) \<or>
      replace_backslash pattern = ''..'')"
  by (auto simp: validate_allow_pattern_def Let_def dotdot_before_last)

subsection \<open>Rollback\<close>

lemma rollback_body_unfold:
  "rollback_ready env agent task_id \<Longrightarrow>
   cmd_rollback env =
     (if rb_registered env = Some True
      then rollback_body env (''agent/'' @ agent @ ''/'' @ task_id)
      else (fst (rollback_body env (''agent/'' @ agent @ ''/'' @ task_id)),
            InRoot GitWorktreeAdd # fst (snd (rollback_body env (''agent/'' @ agent @ ''/'' @ task_id)))
              @ [InRoot GitWorktreeRemove],
            snd (snd (rollback_body env (''agent/'' @ agent @ ''/'' @ task_id)))))"
  by (auto simp: cmd_rollback_def rollback_ready_def Let_def split: prod.splits option.splits)

text \<open>
  C6 (as amended). A target that resolves but is no ancestor of the agent branch ends
  in an error, exit status 2, with no command issued. Once the checks have passed, in a
  clean work tree that git lists for the agent branch or that the command adds for it:
  an empty range succeeds, prints that there is nothing to roll back and issues neither
  revert nor commit; a range with commits whose revert applies and whose commit succeeds
  issues exactly one \<^verbatim>\<open>git revert --no-commit\<close> of the range and one \<^verbatim>\<open>git commit\<close>,
  both where the agent branch is checked out, and nothing that removes a commit of the
  branch; a revert that fails is aborted there (with a hard reset when the abort fails),
  no commit is made, and the command ends in an error.
\<close>

theorem cmd_rollback_cases:
  "(rb_resolved env = Inr (agent, task_id) \<and> rb_branch_exists env \<and> rb_to_commit env \<noteq> None \<and>
      rb_is_ancestor env \<noteq> 0
      \<longrightarrow> cmd_rollback env = (Inl NotAnAncestor, [], []) \<and> main_exit (Inl NotAnAncestor) = 2) \<and>
   (rollback_ready env agent task_id \<and> rb_count env = Some n \<and> n \<le> 0
      \<longrightarrow> fst (cmd_rollback env) = Inr 0 \<and>
          snd (snd (cmd_rollback env)) = [''Nothing to rollback''] \<and>
          in_worktree (fst (snd (cmd_rollback env))) = []) \<and>
   (rollback_ready env agent task_id \<and> rb_count env = Some n \<and> 0 < n \<and> rb_revert env = 0 \<and>
      rb_commit env = 0 \<and> rb_new_sha env = Some new_sha
      \<longrightarrow> fst (cmd_rollback env) = Inr 0 \<and>
          snd (snd (cmd_rollback env)) = [new_sha] \<and>
          in_worktree (fst (snd (cmd_rollback env)))
            = [OnHead (''agent/'' @ agent @ ''/'' @ task_id) GitRevertNoCommit,
               OnHead (''agent/'' @ agent @ ''/'' @ task_id) GitCommit]) \<and>
   (rollback_ready env agent task_id \<and> rb_count env = Some n \<and> 0 < n \<and> rb_revert env \<noteq> 0
      \<longrightarrow> fst (cmd_rollback env) = Inl RevertConflict \<and>
          main_exit (Inl RevertConflict) = 2 \<and>
          in_worktree (fst (snd (cmd_rollback env)))
            = map (OnHead (''agent/'' @ agent @ ''/'' @ task_id))
                (GitRevertNoCommit # abort_revert (rb_revert_abort env)) \<and>
          GitCommit \<notin> effect_of ` set (fst (snd (cmd_rollback env))))"
proof -
  let ?branch = "''agent/'' @ agent @ ''/'' @ task_id"
  have 1: "cmd_rollback env = (Inl NotAnAncestor, [], []) \<and> main_exit (Inl NotAnAncestor) = 2"
    if "rb_resolved env = Inr (agent, task_id) \<and> rb_branch_exists env \<and>
      rb_to_commit env \<noteq> None \<and> rb_is_ancestor env \<noteq> 0"
    using that by (auto simp: cmd_rollback_def main_exit_def)
  have 2: "fst (cmd_rollback env) = Inr 0 \<and>
          snd (snd (cmd_rollback env)) = [''Nothing to rollback''] \<and>
          in_worktree (fst (snd (cmd_rollback env))) = []"
    if a: "rollback_ready env agent task_id \<and> rb_count env = Some n \<and> n \<le> 0"
  proof -
    from a have body: "rollback_body env ?branch = (Inr 0, [], [''Nothing to rollback''])"
      by (auto simp: rollback_body_def rollback_ready_def split: option.splits)
    from a have "rollback_ready env agent task_id" by simp
    from rollback_body_unfold [OF this] body show ?thesis by (simp add: in_worktree_def)
  qed
  have 3: "fst (cmd_rollback env) = Inr 0 \<and>
          snd (snd (cmd_rollback env)) = [new_sha] \<and>
          in_worktree (fst (snd (cmd_rollback env)))
            = [OnHead ?branch GitRevertNoCommit, OnHead ?branch GitCommit]"
    if a: "rollback_ready env agent task_id \<and> rb_count env = Some n \<and> 0 < n \<and> rb_revert env = 0 \<and>
      rb_commit env = 0 \<and> rb_new_sha env = Some new_sha"
  proof -
    from a have body: "rollback_body env ?branch =
        (Inr 0, map (OnHead ?branch) [GitRevertNoCommit, GitCommit], [new_sha])"
      by (auto simp: rollback_body_def rollback_ready_def split: option.splits)
    from a have "rollback_ready env agent task_id" by simp
    from rollback_body_unfold [OF this] body show ?thesis
      by (simp add: in_worktree_def)
  qed
  have 4: "fst (cmd_rollback env) = Inl RevertConflict \<and>
          main_exit (Inl RevertConflict) = 2 \<and>
          in_worktree (fst (snd (cmd_rollback env)))
            = map (OnHead ?branch) (GitRevertNoCommit # abort_revert (rb_revert_abort env)) \<and>
          GitCommit \<notin> effect_of ` set (fst (snd (cmd_rollback env)))"
    if a: "rollback_ready env agent task_id \<and> rb_count env = Some n \<and> 0 < n \<and> rb_revert env \<noteq> 0"
  proof -
    from a have body: "rollback_body env ?branch =
        (Inl RevertConflict,
         map (OnHead ?branch) (GitRevertNoCommit # abort_revert (rb_revert_abort env)), [])"
      by (auto simp: rollback_body_def rollback_ready_def split: option.splits)
    from a have "rollback_ready env agent task_id" by simp
    from rollback_body_unfold [OF this] body show ?thesis
      by (auto simp: abort_revert_def in_worktree_def main_exit_def)
  qed
  from 1 2 3 4 show ?thesis by blast
qed

text \<open>
  C6 as stated fails. With an empty range and a work tree that is not clean the
  command ends in an error, exit status 2, not in success. With commits in the range it
  makes no commit when \<^verbatim>\<open>git commit\<close> fails. And when git lists no work tree for the agent
  branch but the directory of the agent and task exists, the revert and the commit run
  there, on what that directory has checked out: here \<open>main\<close>, not the agent branch.
\<close>

theorem cmd_rollback_counterexample:
  "rb_is_ancestor (rollback_ok\<lparr>rb_status := Some ['' M src/a.py''], rb_count := Some 0\<rparr>) = 0 \<and>
   cmd_rollback (rollback_ok\<lparr>rb_status := Some ['' M src/a.py''], rb_count := Some 0\<rparr>)
     = (Inl WorktreeDirty, [], []) \<and>
   main_exit (Inl WorktreeDirty) = 2 \<and>
   rb_is_ancestor (rollback_ok\<lparr>rb_commit := 1\<rparr>) = 0 \<and>
   rb_count (rollback_ok\<lparr>rb_commit := 1\<rparr>) = Some 3 \<and>
   cmd_rollback (rollback_ok\<lparr>rb_commit := 1\<rparr>)
     = (Inl CommandFailed,
        [OnHead ''agent/alice/t1'' GitRevertNoCommit, OnHead ''agent/alice/t1'' GitCommit], []) \<and>
   cmd_rollback (rollback_ok\<lparr>rb_registered := Some False, rb_candidate := Some ''main''\<rparr>)
     = (Inr 0, [OnHead ''main'' GitRevertNoCommit, OnHead ''main'' GitCommit], [''beef01''])"
  by code_simp

theorem cmd_rollback_cases_witness:
  "cmd_rollback (rollback_ok\<lparr>rb_is_ancestor := 1\<rparr>) = (Inl NotAnAncestor, [], []) \<and>
   fst (cmd_rollback (rollback_ok\<lparr>rb_count := Some 0\<rparr>)) = Inr 0 \<and>
   snd (snd (cmd_rollback (rollback_ok\<lparr>rb_count := Some 0\<rparr>))) = [''Nothing to rollback''] \<and>
   rollback_ready (rollback_ok\<lparr>rb_registered := Some False\<rparr>) ''alice'' ''t1'' \<and>
   fst (cmd_rollback (rollback_ok\<lparr>rb_registered := Some False\<rparr>)) = Inr 0 \<and>
   snd (snd (cmd_rollback (rollback_ok\<lparr>rb_registered := Some False\<rparr>))) = [''beef01''] \<and>
   in_worktree (fst (snd (cmd_rollback (rollback_ok\<lparr>rb_registered := Some False\<rparr>))))
     = [OnHead ''agent/alice/t1'' GitRevertNoCommit, OnHead ''agent/alice/t1'' GitCommit] \<and>
   fst (cmd_rollback (rollback_ok\<lparr>rb_revert := 1, rb_revert_abort := 1\<rparr>)) = Inl RevertConflict \<and>
   GitCommit \<notin> effect_of ` set (fst (snd (cmd_rollback (rollback_ok\<lparr>rb_revert := 1, rb_revert_abort := 1\<rparr>))))"
proof -
  have h1: "rb_resolved (rollback_ok\<lparr>rb_is_ancestor := 1\<rparr>) = Inr (''alice'', ''t1'') \<and>
      rb_branch_exists (rollback_ok\<lparr>rb_is_ancestor := 1\<rparr>) \<and>
      rb_to_commit (rollback_ok\<lparr>rb_is_ancestor := 1\<rparr>) \<noteq> None \<and>
      rb_is_ancestor (rollback_ok\<lparr>rb_is_ancestor := 1\<rparr>) \<noteq> 0"
    by (simp add: rollback_ok_def)
  have h2: "rollback_ready (rollback_ok\<lparr>rb_count := Some 0\<rparr>) ''alice'' ''t1'' \<and>
      rb_count (rollback_ok\<lparr>rb_count := Some 0\<rparr>) = Some 0 \<and> (0::int) \<le> 0"
    by (simp add: rollback_ok_def rollback_ready_def worktree_dirty_def)
  have h3: "rollback_ready (rollback_ok\<lparr>rb_registered := Some False\<rparr>) ''alice'' ''t1'' \<and>
      rb_count (rollback_ok\<lparr>rb_registered := Some False\<rparr>) = Some 3 \<and> (0::int) < 3 \<and>
      rb_revert (rollback_ok\<lparr>rb_registered := Some False\<rparr>) = 0 \<and>
      rb_commit (rollback_ok\<lparr>rb_registered := Some False\<rparr>) = 0 \<and>
      rb_new_sha (rollback_ok\<lparr>rb_registered := Some False\<rparr>) = Some ''beef01''"
    by (simp add: rollback_ok_def rollback_ready_def worktree_dirty_def)
  have h4: "rollback_ready (rollback_ok\<lparr>rb_revert := 1, rb_revert_abort := 1\<rparr>) ''alice'' ''t1'' \<and>
      rb_count (rollback_ok\<lparr>rb_revert := 1, rb_revert_abort := 1\<rparr>) = Some 3 \<and> (0::int) < 3 \<and>
      rb_revert (rollback_ok\<lparr>rb_revert := 1, rb_revert_abort := 1\<rparr>) \<noteq> 0"
    by (simp add: rollback_ok_def rollback_ready_def worktree_dirty_def)
  from cmd_rollback_cases [of "rollback_ok\<lparr>rb_is_ancestor := 1\<rparr>" "''alice''" "''t1''"] h1
  have 1: "cmd_rollback (rollback_ok\<lparr>rb_is_ancestor := 1\<rparr>) = (Inl NotAnAncestor, [], [])"
    by blast
  from cmd_rollback_cases [of "rollback_ok\<lparr>rb_count := Some 0\<rparr>" "''alice''" "''t1''" 0] h2
  have 2: "fst (cmd_rollback (rollback_ok\<lparr>rb_count := Some 0\<rparr>)) = Inr 0"
    "snd (snd (cmd_rollback (rollback_ok\<lparr>rb_count := Some 0\<rparr>))) = [''Nothing to rollback'']"
    by blast+
  from cmd_rollback_cases [of "rollback_ok\<lparr>rb_registered := Some False\<rparr>" "''alice''" "''t1''" 3 "''beef01''"] h3
  have 3: "fst (cmd_rollback (rollback_ok\<lparr>rb_registered := Some False\<rparr>)) = Inr 0"
    "snd (snd (cmd_rollback (rollback_ok\<lparr>rb_registered := Some False\<rparr>))) = [''beef01'']"
    "in_worktree (fst (snd (cmd_rollback (rollback_ok\<lparr>rb_registered := Some False\<rparr>))))
     = [OnHead (''agent/'' @ ''alice'' @ ''/'' @ ''t1'') GitRevertNoCommit,
        OnHead (''agent/'' @ ''alice'' @ ''/'' @ ''t1'') GitCommit]"
    by blast+
  from cmd_rollback_cases [of "rollback_ok\<lparr>rb_revert := 1, rb_revert_abort := 1\<rparr>" "''alice''" "''t1''" 3] h4
  have 4: "fst (cmd_rollback (rollback_ok\<lparr>rb_revert := 1, rb_revert_abort := 1\<rparr>)) = Inl RevertConflict"
    "GitCommit \<notin> effect_of ` set (fst (snd (cmd_rollback (rollback_ok\<lparr>rb_revert := 1, rb_revert_abort := 1\<rparr>))))"
    by blast+
  from 1 2 3 4 h3 show ?thesis by simp
qed

subsection \<open>Merge\<close>

lemma split_ws_word:
  "w \<noteq> [] \<Longrightarrow> \<forall>c \<in> set w. \<not> isspace c \<Longrightarrow> split_ws w = [w]"
proof (induction w)
  case Nil
  then show ?case by simp
next
  case (Cons c w)
  then show ?case by (cases w) auto
qed

text \<open>For a path without white space the reported name is the path of the status line.\<close>

lemma conflict_files_exact:
  assumes "conflict_line line" and "drop 3 line \<noteq> []"
    and "\<forall>c \<in> set (drop 3 line). \<not> isspace c"
  shows "last (split_ws line) = drop 3 line"
proof -
  from assms(1) obtain x path where line: "line = [x, x, CHR '' ''] @ path"
    and x: "x = CHR ''U'' \<or> x = CHR ''A'' \<or> x = CHR ''D''"
    by (auto simp: conflict_line_def prefix_def)
  from x have nx: "\<not> isspace x" by (auto simp: isspace_def)
  have sp: "isspace CHR '' ''" by (simp add: isspace_def)
  from assms(2,3) line have "split_ws path = [path]"
    by (intro split_ws_word) simp_all
  with nx sp line have "split_ws line = [[x, x], path]" by simp
  with line show ?thesis by simp
qed

text \<open>
  A failed merge whose status has a line \<^verbatim>\<open>UU\<close>, \<^verbatim>\<open>AA\<close> or \<^verbatim>\<open>DD\<close> returns 1,
  issues no abort, releases no lock and deletes no branch; any other failed merge is
  aborted and ends in the error that exits with status 2.
\<close>

lemma cmd_merge_conflict:
  assumes "mg_merge env \<noteq> 0" and "mg_status env = Some status_lines"
    and "has_conflicts status_lines"
  shows "cmd_merge env agent task_id T =
           \<lparr>mo_result = Inr 1,
            mo_effects = (if mg_squash env then GitMergeSquash else GitMergeNoFF) # merge_finally env,
            mo_conflict_files = conflict_files status_lines,
            mo_locks = T\<rparr>"
    and "main_exit (Inr 1) = 1"
  using assms by (simp_all add: cmd_merge_def main_exit_def)

lemma cmd_merge_other_failure:
  assumes "mg_merge env \<noteq> 0" and "mg_status env = Some status_lines"
    and "\<not> has_conflicts status_lines"
  shows "cmd_merge env agent task_id T =
           \<lparr>mo_result = Inl MergeFailedNotConflict,
            mo_effects = (if mg_squash env then GitMergeSquash else GitMergeNoFF)
              # abort_merge (mg_merge_abort env) @ merge_finally env,
            mo_conflict_files = [],
            mo_locks = T\<rparr>"
    and "main_exit (Inl MergeFailedNotConflict) = 2"
  using assms by (simp_all add: cmd_merge_def main_exit_def)

lemma cmd_merge_conflict_in_place:
  assumes "mg_merge env \<noteq> 0" and "mg_status env = Some status_lines"
    and "has_conflicts status_lines" and "\<not> mg_created_trunk_worktree env"
  shows "mo_result (cmd_merge env agent task_id T) = Inr 1"
    and "mo_locks (cmd_merge env agent task_id T) = T"
    and "set (mo_effects (cmd_merge env agent task_id T)) \<subseteq> {GitMergeSquash, GitMergeNoFF}"
  using assms by (simp_all add: cmd_merge_conflict merge_finally_def)

text \<open>
  C2 fails on the code in three places. When the command had to add the trunk work tree
  itself, the \<^verbatim>\<open>finally\<close> removes it with \<^verbatim>\<open>--force\<close> after the conflict, and the
  merge in progress with it. The reported name of a conflicting path is the last field
  of its status line, so a path with a blank is reported cut. And a status whose only
  unmerged lines are of the other kinds (here \<^verbatim>\<open>UD\<close>, deleted by them) counts as no
  conflict: the merge is aborted.
\<close>

theorem cmd_merge_conflict_divergence:
  \<open>mo_result (cmd_merge (merge_conflicted\<lparr>mg_created_trunk_worktree := True\<rparr>)
       ''alice'' ''t1'' example_locks) = Inr 1 \<and>
   mo_effects (cmd_merge (merge_conflicted\<lparr>mg_created_trunk_worktree := True\<rparr>)
       ''alice'' ''t1'' example_locks) = [GitMergeNoFF, GitWorktreeRemove] \<and>
   has_conflicts [''UU "docs/my notes.md"''] \<and>
   conflict_files [''UU "docs/my notes.md"''] = [''notes.md"''] \<and>
   status_path ''UU "docs/my notes.md"'' = ''"docs/my notes.md"'' \<and>
   \<not> has_conflicts [''UD src/a.py''] \<and>
   mo_result (cmd_merge (merge_conflicted\<lparr>mg_status := Some [''UD src/a.py'']\<rparr>)
       ''alice'' ''t1'' example_locks) = Inl MergeFailedNotConflict \<and>
   mo_effects (cmd_merge (merge_conflicted\<lparr>mg_status := Some [''UD src/a.py'']\<rparr>)
       ''alice'' ''t1'' example_locks) = [GitMergeNoFF, GitMergeAbort]\<close>
  by code_simp

lemma example_merge_conflict:
  "cmd_merge merge_conflicted ''alice'' ''t1'' example_locks =
     \<lparr>mo_result = Inr 1, mo_effects = [GitMergeNoFF],
      mo_conflict_files = [''src/a.py''], mo_locks = example_locks\<rparr>"
  by code_simp

end
